theory Spec2Isabelle
  imports Complex_Main "HOL-Library.Word"
begin

section \<open>Strings and regular expressions of the story parser\<close>

text \<open>
  A JavaScript string is a sequence of UTF-16 code units. A code unit is modelled by its
  number; \<open>js\<close> turns an ASCII literal into such a sequence.
\<close>

type_synonym jschar = nat
type_synonym jsstring = "jschar list"

definition js :: "string \<Rightarrow> jsstring" where
  "js s = map of_char s"

text \<open>
  The class \<open>\s\<close> and \<open>String.prototype.trim\<close> use the same set: the WhiteSpace and
  LineTerminator code points of ECMAScript (TAB, LF, VT, FF, CR, SP, NBSP, U+1680,
  U+2000..U+200A, U+2028, U+2029, U+202F, U+205F, U+3000, U+FEFF).
\<close>

definition is_space :: "jschar \<Rightarrow> bool" where
  "is_space c \<longleftrightarrow>
     (9 \<le> c \<and> c \<le> 13) \<or> c = 32 \<or> c = 160 \<or> c = 5760 \<or> (8192 \<le> c \<and> c \<le> 8202) \<or>
     c = 8232 \<or> c = 8233 \<or> c = 8239 \<or> c = 8287 \<or> c = 12288 \<or> c = 65279"

definition is_digit :: "jschar \<Rightarrow> bool" where
  "is_digit c \<longleftrightarrow> 48 \<le> c \<and> c \<le> 57"

text \<open>
  Under the flag \<open>i\<close> (without \<open>u\<close>) two code units match when their canonical forms
  agree. Every literal of the patterns below is ASCII, and a code unit from 128 on never
  canonicalises to an ASCII one, so comparing with a literal only needs the ASCII part of
  the canonical form: a..z go to A..Z, everything else stays.
\<close>

definition canonicalize :: "jschar \<Rightarrow> jschar" where
  "canonicalize c = (if 97 \<le> c \<and> c \<le> 122 then c - 32 else c)"

datatype cls =
    Lit jschar  \<comment> \<open>a literal character of the pattern\<close>
  | Space       \<comment> \<open>\<open>\s\<close>\<close>
  | Digit       \<comment> \<open>\<open>\d\<close>\<close>
  | Any         \<comment> \<open>\<open>[\s\S]\<close>\<close>

fun in_cls :: "cls \<Rightarrow> jschar \<Rightarrow> bool" where
  "in_cls (Lit l) c = (canonicalize c = canonicalize l)"
| "in_cls Space c = is_space c"
| "in_cls Digit c = is_digit c"
| "in_cls Any c = True"

text \<open>
  The pattern constructs that the parser's four regular expressions use. A pattern is a
  list of these, matched in sequence.
\<close>

datatype rx =
    One cls          \<comment> \<open>one character of the class\<close>
  | Greedy cls nat   \<comment> \<open>\<open>c{n,}\<close>: at least \<open>n\<close>, as many as possible first\<close>
  | Lazy cls nat     \<comment> \<open>\<open>c{n,}?\<close>: at least \<open>n\<close>, as few as possible first\<close>
  | GroupOpen        \<comment> \<open>start of capture group 1\<close>
  | GroupClose       \<comment> \<open>end of capture group 1\<close>
  | Alt "rx list" "rx list"  \<comment> \<open>\<open>(?:a|b)\<close>\<close>
  | Eos              \<comment> \<open>\<open>$\<close> without the flag \<open>m\<close>: end of input\<close>

text \<open>
  The backtracking matcher of ECMAScript, for these constructs. \<open>rxm rs s p g cap\<close>
  matches the rest \<open>rs\<close> of the pattern against the rest \<open>s\<close> of the input, which starts
  at index \<open>p\<close>; \<open>g\<close> is the index where the open group started and \<open>cap\<close> the group's
  extent once closed. The result is the end index of the match and the capture. The
  alternatives are tried in the order of the standard: a greedy quantifier takes a
  character first and gives it back when the rest fails, a lazy one tries the rest first.
\<close>

function rxm :: "rx list \<Rightarrow> jsstring \<Rightarrow> nat \<Rightarrow> nat \<Rightarrow> (nat \<times> nat) option
    \<Rightarrow> (nat \<times> (nat \<times> nat) option) option" where
  "rxm [] s p g cap = Some (p, cap)"
| "rxm (One c # rs) s p g cap =
     (case s of [] \<Rightarrow> None
      | x # xs \<Rightarrow> if in_cls c x then rxm rs xs (p + 1) g cap else None)"
| "rxm (Greedy c n # rs) s p g cap =
     (case s of [] \<Rightarrow> (if n = 0 then rxm rs s p g cap else None)
      | x # xs \<Rightarrow>
         if in_cls c x then
           (case rxm (Greedy c (n - 1) # rs) xs (p + 1) g cap of
              Some r \<Rightarrow> Some r
            | None \<Rightarrow> if n = 0 then rxm rs s p g cap else None)
         else if n = 0 then rxm rs s p g cap else None)"
| "rxm (Lazy c n # rs) s p g cap =
     (if n = 0 then
        (case rxm rs s p g cap of
           Some r \<Rightarrow> Some r
         | None \<Rightarrow>
            (case s of [] \<Rightarrow> None
             | x # xs \<Rightarrow> if in_cls c x then rxm (Lazy c 0 # rs) xs (p + 1) g cap else None))
      else
        (case s of [] \<Rightarrow> None
         | x # xs \<Rightarrow> if in_cls c x then rxm (Lazy c (n - 1) # rs) xs (p + 1) g cap else None))"
| "rxm (GroupOpen # rs) s p g cap = rxm rs s p p cap"
| "rxm (GroupClose # rs) s p g cap = rxm rs s p g (Some (g, p))"
| "rxm (Alt a b # rs) s p g cap =
     (case rxm (a @ rs) s p g cap of
        Some r \<Rightarrow> Some r
      | None \<Rightarrow> rxm (b @ rs) s p g cap)"
| "rxm (Eos # rs) s p g cap = (if s = [] then rxm rs s p g cap else None)"
  by pat_completeness auto
termination
  by (relation "measures [\<lambda>(rs, s, p, g, cap). length s, \<lambda>(rs, s, p, g, cap). size_list size rs]")
     auto

text \<open>
  \<open>RegExp.prototype.exec\<close> of a pattern without the flags \<open>g\<close> and \<open>y\<close>: the match is
  tried at index 0, 1, ... up to the length of the input, and the first success wins.
  \<open>rx_search rs s p\<close> searches the rest \<open>s\<close> that starts at index \<open>p\<close>; the result is the
  start index with what the matcher returned.
\<close>

fun rx_search :: "rx list \<Rightarrow> jsstring \<Rightarrow> nat \<Rightarrow> (nat \<times> nat \<times> (nat \<times> nat) option) option" where
  "rx_search rs [] p = map_option (Pair p) (rxm rs [] p 0 None)"
| "rx_search rs (x # xs) p =
     (case rxm rs (x # xs) p 0 None of
        Some r \<Rightarrow> Some (p, r)
      | None \<Rightarrow> rx_search rs xs (p + 1))"

definition substring :: "jsstring \<Rightarrow> nat \<Rightarrow> nat \<Rightarrow> jsstring" where
  "substring s a b = take (b - a) (drop a s)"

text \<open>
  \<open>s.match(re)\<close> for a pattern without the flag \<open>g\<close>: \<open>null\<close> when nothing matches,
  otherwise the match array, of which the parser reads element 1, the text of capture
  group 1. Each pattern it is used with closes its group on every path.
\<close>

definition match1 :: "jsstring \<Rightarrow> rx list \<Rightarrow> jsstring option" where
  "match1 s rs =
     (case rx_search rs s 0 of
        None \<Rightarrow> None
      | Some (st, en, cap) \<Rightarrow>
          Some (case cap of None \<Rightarrow> [] | Some (a, b) \<Rightarrow> substring s a b))"

text \<open>
  \<open>s.split(re)\<close> without a limit, for a pattern without capture groups
  (RegExp.prototype[Symbol.split]): the pattern is tried at \<open>q\<close> only (sticky); a failure
  moves \<open>q\<close> on by one; a match that ends at \<open>e\<close> is skipped when \<open>e\<close> is the start \<open>p\<close> of
  the current piece, and otherwise closes the piece \<open>s[p..q)\<close> and starts the next one at
  \<open>e\<close>. The loop runs while \<open>q\<close> is below the length, and the last piece runs to the end.
  \<open>acc\<close> holds \<open>s[p..q)\<close> reversed and \<open>s\<close> the input from \<open>q\<close> on.
\<close>

function split_loop :: "rx list \<Rightarrow> jsstring \<Rightarrow> jsstring \<Rightarrow> jsstring list" where
  "split_loop rs acc [] = [rev acc]"
| "split_loop rs acc (x # xs) =
     (case rxm rs (x # xs) 0 0 None of
        None \<Rightarrow> split_loop rs (x # acc) xs
      | Some (e, cap) \<Rightarrow>
          if e = 0 \<and> acc = [] then split_loop rs (x # acc) xs
          else rev acc # split_loop rs [] (drop e (x # xs)))"
  by pat_completeness auto
termination
  by (relation "measures [\<lambda>(rs, acc, s). length s, \<lambda>(rs, acc, s). length acc]") auto

text \<open>
  For the empty input \<open>split\<close> returns no piece when the pattern matches the empty
  string and the one piece \<open>""\<close> otherwise.
\<close>

definition js_split :: "jsstring \<Rightarrow> rx list \<Rightarrow> jsstring list" where
  "js_split s rs =
     (if s = [] then (case rxm rs [] 0 0 None of None \<Rightarrow> [[]] | Some r \<Rightarrow> [])
      else split_loop rs [] s)"

definition trim :: "jsstring \<Rightarrow> jsstring" where
  "trim s = rev (dropWhile is_space (rev (dropWhile is_space s)))"

section \<open>Audio buffers and story pages\<close>

text \<open>
  An \<open>AudioBuffer\<close> of the Web Audio API: its sample rate and, for each channel, the
  samples of the channel. A sample is a 32-bit float; every sample that the decoder below
  stores is an integer of at most 16 bits divided by \<open>2^15\<close>, which a 32-bit float (and the
  64-bit division before it) represents exactly, so the samples are modelled by their
  values.
\<close>

record AudioBuffer =
  sampleRate :: nat
  channels :: "real list list"

text \<open>
  \<open>IllustrationStyle\<close> is a string enum, declared outside the files at hand; at run time a
  style is the string of its preset.
\<close>

type_synonym IllustrationStyle = jsstring

record StoryPage =
  pageNumber :: nat
  illustrationDescription :: jsstring
  storyText :: jsstring
  voiceText :: jsstring
  imageUrl :: "jsstring option"
  audioBuffer :: "AudioBuffer option"
  isLoadingAssets :: bool

section \<open>The story parser (parseStoryResponse)\<close>

definition lits :: "string \<Rightarrow> rx list" where
  "lits s = map (\<lambda>c. One (Lit (of_char c))) s"

definition eqs :: rx where
  \<comment> \<open>\<open>={10,}\<close>\<close>
  "eqs = Greedy (Lit (of_char CHR ''='')) 10"

definition pageSeparator :: "rx list" where
  \<comment> \<open>\<open>/={10,}\s*HALAMAN\s*\d+\s*={10,}/i\<close>\<close>
  "pageSeparator =
     [eqs, Greedy Space 0] @ lits ''HALAMAN'' @
     [Greedy Space 0, Greedy Digit 1, Greedy Space 0, eqs]"

definition descPattern :: "rx list" where
  \<comment> \<open>\<open>/\[DESKRIPSI ILUSTRASI\]([\s\S]*?)\[TEKS CERITA\]/i\<close>\<close>
  "descPattern =
     lits ''[DESKRIPSI ILUSTRASI]'' @ [GroupOpen, Lazy Any 0, GroupClose] @ lits ''[TEKS CERITA]''"

definition storyPattern :: "rx list" where
  \<comment> \<open>\<open>/\[TEKS CERITA\]([\s\S]*?)\[TEKS SUARA\]/i\<close>\<close>
  "storyPattern =
     lits ''[TEKS CERITA]'' @ [GroupOpen, Lazy Any 0, GroupClose] @ lits ''[TEKS SUARA]''"

definition voicePattern :: "rx list" where
  \<comment> \<open>\<open>/\[TEKS SUARA\]([\s\S]*?)(?:={10,}|$)/i\<close>\<close>
  "voicePattern =
     lits ''[TEKS SUARA]'' @ [GroupOpen, Lazy Any 0, GroupClose, Alt [eqs] [Eos]]"

definition rawPages :: "jsstring \<Rightarrow> jsstring list" where
  \<comment> \<open>\<open>text.split(...).slice(1)\<close>\<close>
  "rawPages text = drop 1 (js_split text pageSeparator)"

text \<open>
  The body of the \<open>forEach\<close> callback: the three matches, and the page that is pushed
  when none of them is \<open>null\<close>. A match array is an object, hence truthy whatever its
  capture holds.
\<close>

definition parsePage :: "jsstring \<Rightarrow> nat \<Rightarrow> StoryPage option" where
  "parsePage rawPage index =
     (case match1 rawPage descPattern of None \<Rightarrow> None | Some descMatch \<Rightarrow>
      case match1 rawPage storyPattern of None \<Rightarrow> None | Some storyMatch \<Rightarrow>
      case match1 rawPage voicePattern of None \<Rightarrow> None | Some voiceMatch \<Rightarrow>
        Some \<lparr> pageNumber = index + 1,
               illustrationDescription = trim descMatch,
               storyText = trim storyMatch,
               voiceText = trim voiceMatch,
               imageUrl = None,
               audioBuffer = None,
               isLoadingAssets = True \<rparr>)"

text \<open>\<open>rawPages.forEach((rawPage, index) => ...)\<close>, from index \<open>index\<close> on, pushing onto \<open>pages\<close>.\<close>

fun forEachPage :: "jsstring list \<Rightarrow> nat \<Rightarrow> StoryPage list \<Rightarrow> StoryPage list" where
  "forEachPage [] index pages = pages"
| "forEachPage (rawPage # rest) index pages =
     forEachPage rest (index + 1)
       (case parsePage rawPage index of None \<Rightarrow> pages | Some page \<Rightarrow> pages @ [page])"

definition parseStoryResponse :: "jsstring \<Rightarrow> StoryPage list" where
  "parseStoryResponse text = forEachPage (rawPages text) 0 []"

section \<open>Errors\<close>

text \<open>
  A thrown value or a rejected promise is the left summand of a result. The exceptions of
  the platform keep their names; \<open>Error\<close> is the plain \<open>new Error(message)\<close>.
\<close>

datatype js_error =
    Error jsstring
  | RangeError jsstring
  | NotSupportedError jsstring
  | InvalidStateError jsstring
  | OtherError jsstring

fun message :: "js_error \<Rightarrow> jsstring" where
  "message (Error m) = m"
| "message (RangeError m) = m"
| "message (NotSupportedError m) = m"
| "message (InvalidStateError m) = m"
| "message (OtherError m) = m"

definition truthy :: "jsstring option \<Rightarrow> bool" where
  \<comment> \<open>a string or \<open>undefined\<close> used as a condition: \<open>undefined\<close> and \<open>""\<close> are falsy\<close>
  "truthy v = (case v of None \<Rightarrow> False | Some s \<Rightarrow> s \<noteq> [])"

section \<open>The audio decode helper (decodeBase64, decodeAudioData)\<close>

type_synonym byte = "8 word"

text \<open>
  \<open>decodeBase64\<close> after \<open>atob\<close>: each character code is stored into a \<open>Uint8Array\<close>,
  which keeps it modulo 256. \<open>atob\<close> itself belongs to the platform; it raises on a string
  that is not base64.
\<close>

definition decodeBase64 :: "(jsstring \<Rightarrow> js_error + jsstring) \<Rightarrow> jsstring \<Rightarrow> js_error + byte list" where
  "decodeBase64 atob base64 =
     (case atob base64 of
        Inl e \<Rightarrow> Inl e
      | Inr binaryString \<Rightarrow> Inr (map (\<lambda>charCode. of_nat charCode) binaryString))"

text \<open>
  \<open>new Int16Array(buffer)\<close> over a whole \<open>ArrayBuffer\<close>: a \<open>RangeError\<close> when the byte
  length is odd, otherwise one element for every two bytes, the low byte first (the byte
  order of the platform, little-endian on every platform a browser runs on and the one
  the fallback assumes).
\<close>

fun int16_elements :: "byte list \<Rightarrow> 16 word list" where
  "int16_elements (lo # hi # rest) = word_cat hi lo # int16_elements rest"
| "int16_elements _ = []"

definition new_Int16Array :: "byte list \<Rightarrow> js_error + 16 word list" where
  "new_Int16Array buffer =
     (if odd (length buffer) then Inl (RangeError (js ''byte length of Int16Array should be a multiple of 2''))
      else Inr (int16_elements buffer))"

text \<open>
  The nominal ranges of an audio context. The Web Audio API requires every implementation
  to support at least 32 channels and the sample rates from 8000 Hz to 96000 Hz, and
  leaves it to the implementation how far beyond that it goes: a context supports up to
  \<open>32 + moreChannels\<close> channels and the rates from \<open>8000 - lowerRates\<close> to
  \<open>96000 + higherRates\<close>.
\<close>

record AudioLimits =
  moreChannels :: nat
  lowerRates :: nat
  higherRates :: nat

text \<open>
  \<open>ctx.createBuffer(numberOfChannels, length, sampleRate)\<close> of the Web Audio API: a
  \<open>NotSupportedError\<close> when an argument is zero or outside its nominal range, otherwise a
  buffer of silence.
\<close>

definition createBuffer :: "AudioLimits \<Rightarrow> nat \<Rightarrow> nat \<Rightarrow> nat \<Rightarrow> js_error + AudioBuffer" where
  "createBuffer limits numChannels frameCount rate =
     (if numChannels = 0 \<or> frameCount = 0 \<or> rate = 0 \<or>
         32 + moreChannels limits < numChannels \<or>
         rate < 8000 - lowerRates limits \<or> 96000 + higherRates limits < rate
      then Inl (NotSupportedError (js ''createBuffer''))
      else Inr \<lparr> sampleRate = rate, channels = replicate numChannels (replicate frameCount 0) \<rparr>)"

text \<open>
  The nested iteration of the fallback over channels and frames. A write to a typed
  array is \<open>list_update\<close>: an index outside the array is ignored by both. \<open>frameCount\<close> is
  \<open>dataInt16.length / numChannels\<close>; when the division is not exact, \<open>createBuffer\<close>
  truncates the quotient and the writes at the one further index that the iteration
  reaches fall outside the channel, so the integer quotient gives the same buffer.
\<close>

definition fillChannel :: "16 word list \<Rightarrow> nat \<Rightarrow> nat \<Rightarrow> nat \<Rightarrow> real list \<Rightarrow> real list" where
  "fillChannel dataInt16 numChannels frameCount channel channelData =
     fold (\<lambda>i cd. cd[i := real_of_int (sint (dataInt16 ! (i * numChannels + channel))) / 32768])
       [0..<frameCount] channelData"

definition fillChannels :: "16 word list \<Rightarrow> nat \<Rightarrow> nat \<Rightarrow> AudioBuffer \<Rightarrow> AudioBuffer" where
  "fillChannels dataInt16 numChannels frameCount buffer =
     fold (\<lambda>channel b.
             b\<lparr>channels := (channels b)[channel :=
                  fillChannel dataInt16 numChannels frameCount channel (channels b ! channel)]\<rparr>)
       [0..<numChannels] buffer"

text \<open>
  \<open>decodeAudioData(data, ctx, sampleRate, numChannels)\<close>. \<open>data\<close> stands for
  \<open>data.buffer\<close>, the bytes of the array's buffer (\<open>decodeBase64\<close> allocates an array that
  covers its buffer). The context \<open>ctx\<close> is given by \<open>native\<close>, which is
  \<open>ctx.decodeAudioData\<close>, the decoder of the platform for audio containers (\<open>None\<close> when it
  rejects the bytes, which starts the fallback), and by the nominal ranges \<open>limits\<close> of
  \<open>ctx.createBuffer\<close>.
\<close>

definition decodeAudioData ::
    "(byte list \<Rightarrow> AudioBuffer option) \<Rightarrow> AudioLimits \<Rightarrow> byte list \<Rightarrow> nat \<Rightarrow> nat
     \<Rightarrow> js_error + AudioBuffer" where
  "decodeAudioData native limits data rate numChannels =
     (case native data of
        Some decoded \<Rightarrow> Inr decoded
      | None \<Rightarrow>
         (case new_Int16Array data of
            Inl e \<Rightarrow> Inl e
          | Inr dataInt16 \<Rightarrow>
             (let frameCount = length dataInt16 div numChannels in
              case createBuffer limits numChannels frameCount rate of
                Inl e \<Rightarrow> Inl e
              | Inr buffer \<Rightarrow> Inr (fillChannels dataInt16 numChannels frameCount buffer))))"

text \<open>
  The encoding that the round trip of the specification starts from: each signed 16-bit
  sample as two bytes, the low byte first.
\<close>

definition encode_pcm16le :: "16 word list \<Rightarrow> byte list" where
  "encode_pcm16le samples = concat (map (\<lambda>w. [ucast w, ucast (drop_bit 8 w)]) samples)"

section \<open>The AI service client (generateStoryText, generateIllustration, generateNarration)\<close>

text \<open>
  The backend is \<open>ai.models.generateContent\<close>: a function from the request to either a
  rejection or a response. Of a response the client reads \<open>response.text\<close> and the chain
  \<open>response.candidates?.[0]?.content?.parts\<close>, each of which may be \<open>undefined\<close>.
\<close>

record Request =
  model :: string
  contents :: jsstring

record InlineData =
  data :: "jsstring option"

record Part =
  inlineData :: "InlineData option"

record Response =
  response_text :: "jsstring option"
  response_parts :: "Part list option"

type_synonym backend = "Request \<Rightarrow> js_error + Response"

definition generateStoryText :: "backend \<Rightarrow> jsstring \<Rightarrow> IllustrationStyle \<Rightarrow> js_error + StoryPage list" where
  "generateStoryText ai tpc sty =
     (case ai \<lparr> model = ''gemini-2.5-flash'',
                contents = js ''Buatkan storybook berdasarkan: '' @ tpc @
                           js ''. Gaya ilustrasi: '' @ sty @ js ''.'' \<rparr> of
        Inl e \<Rightarrow> Inl e
      | Inr response \<Rightarrow>
          if \<not> truthy (response_text response) then Inl (Error (js ''No text generated''))
          else Inr (parseStoryResponse (the (response_text response))))"

text \<open>The loop over the parts: the data of the first part that has inline data.\<close>

fun firstInlineData :: "Part list \<Rightarrow> jsstring option" where
  "firstInlineData [] = None"
| "firstInlineData (part # rest) =
     (case inlineData part of
        None \<Rightarrow> firstInlineData rest
      | Some inline \<Rightarrow>
          if truthy (data inline) then Some (the (data inline)) else firstInlineData rest)"

text \<open>The \<open>try\<close> block of \<open>generateIllustration\<close>.\<close>

definition generateIllustration_try :: "backend \<Rightarrow> jsstring \<Rightarrow> IllustrationStyle \<Rightarrow> js_error + jsstring" where
  "generateIllustration_try ai prompt sty =
     (case ai \<lparr> model = ''gemini-2.5-flash-image'',
                contents = sty @ js '' style. '' @ prompt \<rparr> of
        Inl e \<Rightarrow> Inl e
      | Inr response \<Rightarrow>
         (case response_parts response of
            None \<Rightarrow> Inl (Error (js ''No image data found in response''))
          | Some parts \<Rightarrow>
             (case firstInlineData parts of
                Some d \<Rightarrow> Inr (js ''data:image/png;base64,'' @ d)
              | None \<Rightarrow> Inl (Error (js ''No image data found in response'')))))"

text \<open>
  \<open>generateIllustration\<close> with its \<open>catch\<close>; \<open>random\<close> is the text of \<open>Math.random()\<close>.
  The result is the outcome of the promise that the function returns.
\<close>

definition placeholder :: "jsstring \<Rightarrow> jsstring" where
  "placeholder random = js ''https://picsum.photos/1024/1024?random='' @ random"

definition generateIllustration ::
    "backend \<Rightarrow> jsstring \<Rightarrow> jsstring \<Rightarrow> IllustrationStyle \<Rightarrow> js_error + jsstring" where
  "generateIllustration ai random prompt sty =
     (case generateIllustration_try ai prompt sty of
        Inr url \<Rightarrow> Inr url
      | Inl e \<Rightarrow> Inr (placeholder random))"

text \<open>
  \<open>generateNarration\<close>: the first part's inline data, decoded at 24000 Hz and 1 channel;
  \<open>undefined\<close> when there is none and on every error. \<open>native\<close> and \<open>limits\<close> give the audio
  context that the function creates.
\<close>

definition generateNarration ::
    "backend \<Rightarrow> (jsstring \<Rightarrow> js_error + jsstring) \<Rightarrow> (byte list \<Rightarrow> AudioBuffer option) \<Rightarrow> AudioLimits
     \<Rightarrow> jsstring \<Rightarrow> js_error + AudioBuffer option" where
  "generateNarration ai atob native limits txt =
     (case ai \<lparr> model = ''gemini-2.5-flash-preview-tts'', contents = txt \<rparr> of
        Inl e \<Rightarrow> Inr None
      | Inr response \<Rightarrow>
         (let base64Audio =
                (case response_parts response of
                   None \<Rightarrow> None
                 | Some [] \<Rightarrow> None
                 | Some (part # rest) \<Rightarrow>
                     (case inlineData part of None \<Rightarrow> None | Some inline \<Rightarrow> data inline))
          in if truthy base64Audio then
               (case decodeBase64 atob (the base64Audio) of
                  Inl e \<Rightarrow> Inr None
                | Inr audioBytes \<Rightarrow>
                   (case decodeAudioData native limits audioBytes 24000 1 of
                      Inl e \<Rightarrow> Inr None
                    | Inr buffer \<Rightarrow> Inr (Some buffer)))
             else Inr None))"

section \<open>The top-level app (handleGenerate, updatePage, generateAssetsInBackground, resetApp)\<close>

datatype AppState = Input | Generating_text | Generating_assets | Reading | Error_state

datatype ReadingMode = Slide | Scroll

record App =
  appState :: AppState
  topic :: jsstring
  style :: IllustrationStyle
  readingMode :: ReadingMode
  pages :: "StoryPage list"
  loadingMessage :: jsstring
  error :: "jsstring option"

text \<open>
  \<open>Partial<StoryPage>\<close>: for each field, \<open>None\<close> when the object has no such key and
  \<open>Some v\<close> when it has the key with value \<open>v\<close> (which is \<open>undefined\<close> for \<open>Some None\<close> of an
  optional field).
\<close>

record PageUpdates =
  upd_pageNumber :: "nat option"
  upd_illustrationDescription :: "jsstring option"
  upd_storyText :: "jsstring option"
  upd_voiceText :: "jsstring option"
  upd_imageUrl :: "jsstring option option"
  upd_audioBuffer :: "AudioBuffer option option"
  upd_isLoadingAssets :: "bool option"

definition noUpdates :: PageUpdates where
  "noUpdates = \<lparr> upd_pageNumber = None, upd_illustrationDescription = None, upd_storyText = None,
                 upd_voiceText = None, upd_imageUrl = None, upd_audioBuffer = None,
                 upd_isLoadingAssets = None \<rparr>"

definition spread :: "StoryPage \<Rightarrow> PageUpdates \<Rightarrow> StoryPage" where
  \<comment> \<open>\<open>{ ...page, ...updates }\<close>\<close>
  "spread page updates =
     \<lparr> pageNumber = (case upd_pageNumber updates of None \<Rightarrow> pageNumber page | Some v \<Rightarrow> v),
       illustrationDescription =
         (case upd_illustrationDescription updates of None \<Rightarrow> illustrationDescription page | Some v \<Rightarrow> v),
       storyText = (case upd_storyText updates of None \<Rightarrow> storyText page | Some v \<Rightarrow> v),
       voiceText = (case upd_voiceText updates of None \<Rightarrow> voiceText page | Some v \<Rightarrow> v),
       imageUrl = (case upd_imageUrl updates of None \<Rightarrow> imageUrl page | Some v \<Rightarrow> v),
       audioBuffer = (case upd_audioBuffer updates of None \<Rightarrow> audioBuffer page | Some v \<Rightarrow> v),
       isLoadingAssets =
         (case upd_isLoadingAssets updates of None \<Rightarrow> isLoadingAssets page | Some v \<Rightarrow> v) \<rparr>"

text \<open>
  The state updater that \<open>updatePage(index, updates)\<close> passes to \<open>setPages\<close>, applied to
  the page sequence \<open>prev\<close>. \<open>newPages[index]\<close> is \<open>undefined\<close>, hence falsy, exactly
  when the index is not below the length.
\<close>

definition updatePage :: "nat \<Rightarrow> PageUpdates \<Rightarrow> StoryPage list \<Rightarrow> StoryPage list" where
  "updatePage index updates prev =
     (let newPages = prev in
      if \<not> index < length newPages then newPages
      else
        (let merged = spread (newPages ! index) updates;
             merged' = (if truthy (imageUrl merged) \<and> audioBuffer merged \<noteq> None
                        then merged\<lparr>isLoadingAssets := False\<rparr> else merged)
         in newPages[index := merged']))"

text \<open>
  What the background pipeline does, in order: the two requests of a page, then the
  update of the page. The two services are parameters, so that the events are the same
  whatever the backend answers.
\<close>

datatype event =
    RequestIllustration jsstring IllustrationStyle
  | RequestNarration jsstring
  | UpdatePage nat PageUpdates

text \<open>
  One round of the \<open>for\<close> loop, for the page at index \<open>i\<close>: \<open>Promise.all\<close> starts both
  requests and rejects when one of them does, which the \<open>catch\<close> turns into the update
  that only stops the spinner.
\<close>

definition assetsForPage ::
    "(jsstring \<Rightarrow> IllustrationStyle \<Rightarrow> js_error + jsstring) \<Rightarrow> (jsstring \<Rightarrow> js_error + AudioBuffer option)
     \<Rightarrow> IllustrationStyle \<Rightarrow> nat \<Rightarrow> StoryPage \<Rightarrow> event list" where
  "assetsForPage illustrate narrate selectedStyle i page =
     [RequestIllustration (illustrationDescription page) selectedStyle,
      RequestNarration (storyText page),
      UpdatePage i
        (case (illustrate (illustrationDescription page) selectedStyle, narrate (storyText page)) of
           (Inr url, Inr buffer) \<Rightarrow>
              noUpdates\<lparr> upd_imageUrl := Some (Some url), upd_audioBuffer := Some buffer,
                         upd_isLoadingAssets := Some False \<rparr>
         | _ \<Rightarrow> noUpdates\<lparr> upd_isLoadingAssets := Some False \<rparr>)]"

fun assetsLoop ::
    "(jsstring \<Rightarrow> IllustrationStyle \<Rightarrow> js_error + jsstring) \<Rightarrow> (jsstring \<Rightarrow> js_error + AudioBuffer option)
     \<Rightarrow> IllustrationStyle \<Rightarrow> nat \<Rightarrow> StoryPage list \<Rightarrow> event list" where
  "assetsLoop illustrate narrate selectedStyle i [] = []"
| "assetsLoop illustrate narrate selectedStyle i (page # rest) =
     assetsForPage illustrate narrate selectedStyle i page @
     assetsLoop illustrate narrate selectedStyle (i + 1) rest"

definition generateAssetsInBackground ::
    "(jsstring \<Rightarrow> IllustrationStyle \<Rightarrow> js_error + jsstring) \<Rightarrow> (jsstring \<Rightarrow> js_error + AudioBuffer option)
     \<Rightarrow> StoryPage list \<Rightarrow> IllustrationStyle \<Rightarrow> event list" where
  "generateAssetsInBackground illustrate narrate storyPages selectedStyle =
     assetsLoop illustrate narrate selectedStyle 0 storyPages"

text \<open>An event of the pipeline reaching the app: only the updates touch its state.\<close>

fun applyEvent :: "event \<Rightarrow> App \<Rightarrow> App" where
  "applyEvent (UpdatePage i updates) app = app\<lparr>pages := updatePage i updates (pages app)\<rparr>"
| "applyEvent _ app = app"

text \<open>
  \<open>handleGenerate\<close>, from the click to the moment its promise settles; \<open>outcome\<close> is what
  \<open>generateStoryText\<close> returned. While the request runs the app shows the spinner only, so
  no other handler runs in between.
\<close>

definition failGenerate :: "js_error \<Rightarrow> App \<Rightarrow> App" where
  \<comment> \<open>the \<open>catch\<close> of \<open>handleGenerate\<close>\<close>
  "failGenerate err app =
     app\<lparr> error := Some (if message err \<noteq> [] then message err
                          else js ''Something went wrong while creating your story.''),
          appState := Error_state \<rparr>"

definition handleGenerate :: "js_error + StoryPage list \<Rightarrow> App \<Rightarrow> App" where
  "handleGenerate outcome app =
     (if trim (topic app) = [] then app
      else
        (let app1 = app\<lparr> appState := Generating_text, error := None,
                         loadingMessage := js ''Weaving your story text with Gemini...'' \<rparr>
         in case outcome of
              Inl e \<Rightarrow> failGenerate e app1
            | Inr storyPages \<Rightarrow>
                if length storyPages = 0
                then failGenerate (Error (js ''Failed to generate valid story structure.'')) app1
                else app1\<lparr> pages := storyPages,
                           loadingMessage := js ''Painting illustrations and recording voices...'',
                           appState := Reading \<rparr>))"

definition resetApp :: "App \<Rightarrow> App" where
  "resetApp app = app\<lparr> appState := Input, topic := [], pages := [], error := None \<rparr>"

section \<open>The viewer (BookViewer)\<close>

subsection \<open>Page navigation\<close>

text \<open>
  The state of the component. \<open>'b\<close> is the identity of an \<open>AudioBuffer\<close> object: the
  viewer compares buffers with \<open>===\<close>. The source nodes that \<open>playAudio\<close> created live in
  \<open>nodes\<close>, and a node is known by its index there; \<open>suspendedPlays\<close> are the calls of
  \<open>playAudio\<close> that wait at \<open>await resume()\<close>, each with its buffer and the
  \<open>playingAudioBuffer\<close> that its closure saw.
\<close>

datatype ContextState = Running | Suspended | Closed

record 'b SourceNode =
  node_buffer :: 'b
  connected :: bool
  started :: bool
  playing :: bool
  closure_playingAudioBuffer :: "'b option"

record 'b Viewer =
  currentPageIndex :: nat
  playingAudioBuffer :: "'b option"
  isGeneratingPdf :: bool
  audioContextRef :: "ContextState option"
  sourceNodeRef :: "nat option"
  nodes :: "'b SourceNode list"
  suspendedPlays :: "('b \<times> 'b option) list"

definition initialViewer :: "'b Viewer" where
  "initialViewer =
     \<lparr> currentPageIndex = 0, playingAudioBuffer = None, isGeneratingPdf = False,
       audioContextRef = None, sourceNodeRef = None, nodes = [], suspendedPlays = [] \<rparr>"

definition handleNext :: "StoryPage list \<Rightarrow> 'b Viewer \<Rightarrow> 'b Viewer" where
  "handleNext storyPages v =
     (if int (currentPageIndex v) < int (length storyPages) - 1
      then v\<lparr>currentPageIndex := currentPageIndex v + 1\<rparr> else v)"

definition handlePrev :: "StoryPage list \<Rightarrow> 'b Viewer \<Rightarrow> 'b Viewer" where
  "handlePrev storyPages v =
     (if currentPageIndex v > 0
      then v\<lparr>currentPageIndex := currentPageIndex v + 1\<rparr> else v)"

text \<open>\<open>pages[currentPageIndex]\<close>: \<open>undefined\<close> outside the sequence.\<close>

definition currentPage :: "StoryPage list \<Rightarrow> 'b Viewer \<Rightarrow> StoryPage option" where
  "currentPage storyPages v =
     (if currentPageIndex v < length storyPages then Some (storyPages ! currentPageIndex v) else None)"

subsection \<open>Playback transport\<close>

text \<open>
  \<open>stop()\<close> raises an \<open>InvalidStateError\<close> on a node that was never started; the \<open>catch\<close>
  of \<open>stopAudio\<close> then skips \<open>disconnect()\<close>.
\<close>

definition stopAndDisconnect :: "'b SourceNode \<Rightarrow> 'b SourceNode" where
  "stopAndDisconnect node =
     (if started node then node\<lparr>playing := False, connected := False\<rparr> else node)"

definition stopAudio :: "'b Viewer \<Rightarrow> 'b Viewer" where
  "stopAudio v =
     (case sourceNodeRef v of
        Some n \<Rightarrow>
          v\<lparr> nodes := (nodes v)[n := stopAndDisconnect (nodes v ! n)],
             sourceNodeRef := None, playingAudioBuffer := None \<rparr>
      | None \<Rightarrow> v\<lparr>playingAudioBuffer := None\<rparr>)"

text \<open>
  \<open>playAudio\<close> from \<open>stopAudio()\<close> on, which runs without interruption: the old node is
  stopped, the new one is created, connected, stored in the ref and started.
\<close>

definition playAudio_rest :: "'b \<Rightarrow> 'b option \<Rightarrow> 'b Viewer \<Rightarrow> 'b Viewer" where
  "playAudio_rest buf seen v =
     (let v1 = stopAudio v;
          source = \<lparr> node_buffer = buf, connected = True, started = True, playing = True,
                     closure_playingAudioBuffer = seen \<rparr>
      in v1\<lparr> nodes := nodes v1 @ [source], sourceNodeRef := Some (length (nodes v1)),
              playingAudioBuffer := Some buf \<rparr>)"

text \<open>
  \<open>playAudio\<close> up to the \<open>await\<close>: a missing or closed context is replaced by a new one,
  whose state \<open>fresh\<close> the browser decides; with a suspended context the call waits for
  \<open>resume()\<close>, otherwise it goes on at once.
\<close>

definition playAudio :: "ContextState \<Rightarrow> 'b \<Rightarrow> 'b Viewer \<Rightarrow> 'b Viewer" where
  "playAudio fresh buf v =
     (let v1 = (if audioContextRef v = None \<or> audioContextRef v = Some Closed
                then v\<lparr>audioContextRef := Some fresh\<rparr> else v)
      in if audioContextRef v1 = Some Suspended
         then v1\<lparr>suspendedPlays := suspendedPlays v1 @ [(buf, playingAudioBuffer v)]\<rparr>
         else playAudio_rest buf (playingAudioBuffer v) v1)"

definition toggleAudio :: "ContextState \<Rightarrow> 'b option \<Rightarrow> 'b Viewer \<Rightarrow> 'b Viewer" where
  "toggleAudio fresh buffer v =
     (case buffer of
        None \<Rightarrow> v
      | Some buf \<Rightarrow> if playingAudioBuffer v = Some buf then stopAudio v else playAudio fresh buf v)"

text \<open>
  \<open>resume()\<close> has resolved for the oldest waiting call: the context runs and the call
  continues.
\<close>

definition resumed :: "'b Viewer \<Rightarrow> 'b Viewer" where
  "resumed v =
     (case suspendedPlays v of
        [] \<Rightarrow> v
      | (buf, seen) # rest \<Rightarrow>
          playAudio_rest buf seen (v\<lparr>suspendedPlays := rest, audioContextRef := Some Running\<rparr>))"

text \<open>
  The \<open>ended\<close> event of node \<open>n\<close>, which the browser sends when the node has played to its
  end or was stopped: the node is silent, and \<open>onended\<close> compares the buffer of the node
  with the \<open>playingAudioBuffer\<close> that the closure saw.
\<close>

definition sourceEnded :: "nat \<Rightarrow> 'b Viewer \<Rightarrow> 'b Viewer" where
  "sourceEnded n v =
     (if \<not> n < length (nodes v) then v
      else
        (let node = nodes v ! n;
             v1 = v\<lparr>nodes := (nodes v)[n := node\<lparr>playing := False\<rparr>]\<rparr>
         in if closure_playingAudioBuffer node = Some (node_buffer node)
            then v1\<lparr>playingAudioBuffer := None\<rparr> else v1))"

text \<open>The effect on \<open>[currentPageIndex, mode]\<close>, after a render that changed the index.\<close>

definition pageChangeEffect :: "ReadingMode \<Rightarrow> nat \<Rightarrow> 'b Viewer \<Rightarrow> 'b Viewer" where
  "pageChangeEffect viewMode before v =
     (if currentPageIndex v \<noteq> before \<and> viewMode = Slide then stopAudio v else v)"

datatype 'b ViewerEvent =
    Toggle "'b option" ContextState  \<comment> \<open>a click on "Read to Me"\<close>
  | Resumed                          \<comment> \<open>\<open>resume()\<close> resolved\<close>
  | SourceEnded nat                  \<comment> \<open>the \<open>ended\<close> event of a node\<close>
  | ClickNext
  | ClickPrev
  | ContextStateChange ContextState  \<comment> \<open>the browser suspends or resumes the context\<close>

fun viewerStep :: "StoryPage list \<Rightarrow> ReadingMode \<Rightarrow> 'b ViewerEvent \<Rightarrow> 'b Viewer \<Rightarrow> 'b Viewer" where
  "viewerStep storyPages viewMode (Toggle buffer fresh) v = toggleAudio fresh buffer v"
| "viewerStep storyPages viewMode Resumed v = resumed v"
| "viewerStep storyPages viewMode (SourceEnded n) v = sourceEnded n v"
| "viewerStep storyPages viewMode ClickNext v =
     pageChangeEffect viewMode (currentPageIndex v) (handleNext storyPages v)"
| "viewerStep storyPages viewMode ClickPrev v =
     pageChangeEffect viewMode (currentPageIndex v) (handlePrev storyPages v)"
| "viewerStep storyPages viewMode (ContextStateChange st) v =
     (if audioContextRef v = None then v else v\<lparr>audioContextRef := Some st\<rparr>)"

text \<open>The states that the viewer reaches from its first render.\<close>

inductive reachable :: "StoryPage list \<Rightarrow> ReadingMode \<Rightarrow> 'b Viewer \<Rightarrow> bool"
  for storyPages :: "StoryPage list" and viewMode :: ReadingMode where
  initial: "reachable storyPages viewMode initialViewer"
| step: "reachable storyPages viewMode v \<Longrightarrow> reachable storyPages viewMode (viewerStep storyPages viewMode ev v)"

definition activeNodes :: "'b Viewer \<Rightarrow> nat list" where
  \<comment> \<open>the nodes that are sounding: started and neither stopped nor ended\<close>
  "activeNodes v = filter (\<lambda>n. playing (nodes v ! n)) [0..<length (nodes v)]"

subsection \<open>PDF export (handleDownloadPdf)\<close>

text \<open>
  A jsPDF document is the list of its pages, each page the list of the images drawn on
  it. \<open>new jsPDF(...)\<close> is a document with one empty page, which is the current page;
  \<open>addPage\<close> appends an empty page and makes it current; \<open>addImage\<close> draws on the current
  page, the last one.
\<close>

type_synonym 'img pdf = "'img list list"

definition new_jsPDF :: "'img pdf" where
  "new_jsPDF = [[]]"

definition addPage :: "'img pdf \<Rightarrow> 'img pdf" where
  "addPage doc = doc @ [[]]"

definition addImage :: "'img \<Rightarrow> 'img pdf \<Rightarrow> 'img pdf" where
  "addImage imgData doc = butlast doc @ [last doc @ [imgData]]"

text \<open>
  The \<open>for\<close> loop of the export from index \<open>i\<close> on. \<open>html2canvas\<close> is the rendering of a
  page to the data of its picture (\<open>PdfPage\<close>, \<open>html2canvas\<close>, \<open>toDataURL\<close>), which may
  raise.
\<close>

fun exportLoop :: "(StoryPage \<Rightarrow> js_error + 'img) \<Rightarrow> nat \<Rightarrow> StoryPage list \<Rightarrow> 'img pdf \<Rightarrow> js_error + 'img pdf" where
  "exportLoop html2canvas i [] doc = Inr doc"
| "exportLoop html2canvas i (page # rest) doc =
     (if \<not> truthy (imageUrl page) then exportLoop html2canvas (i + 1) rest doc
      else
        (case html2canvas page of
           Inl e \<Rightarrow> Inl e
         | Inr imgData \<Rightarrow>
             exportLoop html2canvas (i + 1) rest
               (addImage imgData (if i > 0 then addPage doc else doc))))"

text \<open>
  \<open>handleDownloadPdf\<close>: the file that \<open>doc.save\<close> writes, if any. Nothing is saved when
  the libraries are missing and when the loop raised.
\<close>

definition handleDownloadPdf :: "bool \<Rightarrow> (StoryPage \<Rightarrow> js_error + 'img) \<Rightarrow> StoryPage list \<Rightarrow> 'img pdf option" where
  "handleDownloadPdf librariesFound html2canvas storyPages =
     (if \<not> librariesFound then None
      else
        (case exportLoop html2canvas 0 storyPages new_jsPDF of
           Inl e \<Rightarrow> None
         | Inr doc \<Rightarrow> Some doc))"

section \<open>Notions that the properties speak of\<close>

text \<open>The texts for which a run of the pipeline requested narration, in order.\<close>

definition narrationRequests :: "event list \<Rightarrow> jsstring list" where
  "narrationRequests evs = concat (map (\<lambda>ev. case ev of RequestNarration t \<Rightarrow> [t] | _ \<Rightarrow> []) evs)"

text \<open>A page to try the properties on.\<close>

definition samplePage :: "nat \<Rightarrow> jsstring option \<Rightarrow> StoryPage" where
  "samplePage n url =
     \<lparr> pageNumber = n, illustrationDescription = js ''A cat.'', storyText = js ''Once upon a time.'',
       voiceText = js ''Meow.'', imageUrl = url, audioBuffer = None, isLoadingAssets = True \<rparr>"

text \<open>A part that carries inline data: \<open>part.inlineData && part.inlineData.data\<close>.\<close>

definition hasInlineData :: "Part \<Rightarrow> bool" where
  "hasInlineData part = (case inlineData part of None \<Rightarrow> False | Some inline \<Rightarrow> truthy (data inline))"

text \<open>
  What keeps the playback transport single: a node that sounds is the one that
  \<open>sourceNodeRef\<close> holds, the ref holds a node that was started, and the buffer that the
  viewer shows as playing is the buffer of the node in the ref.
\<close>

definition transportInv :: "'b Viewer \<Rightarrow> bool" where
  "transportInv v \<longleftrightarrow>
     (\<forall>n < length (nodes v). playing (nodes v ! n) \<longrightarrow> sourceNodeRef v = Some n) \<and>
     (\<forall>n. sourceNodeRef v = Some n \<longrightarrow> n < length (nodes v) \<and> started (nodes v ! n)) \<and>
     (\<forall>a. playingAudioBuffer v = Some a \<longrightarrow>
        (\<exists>n. sourceNodeRef v = Some n \<and> node_buffer (nodes v ! n) = a))"

text \<open>
  The text \<open>s\<close> starts with the label \<open>L\<close>, letters compared without regard to case.
\<close>

fun labelAt :: "string \<Rightarrow> jsstring \<Rightarrow> bool" where
  "labelAt [] s = True"
| "labelAt (l # ls) [] = False"
| "labelAt (l # ls) (c # cs) = (canonicalize c = canonicalize (of_char l) \<and> labelAt ls cs)"

text \<open>All three section patterns match in a block: the condition under which a page is pushed.\<close>

definition blockMatches :: "jsstring \<Rightarrow> bool" where
  "blockMatches rawPage \<longleftrightarrow>
     match1 rawPage descPattern \<noteq> None \<and> match1 rawPage storyPattern \<noteq> None \<and>
     match1 rawPage voicePattern \<noteq> None"

text \<open>
  The label \<open>A\<close> occurs in \<open>s\<close> at some index \<open>i\<close> and the label \<open>B\<close> at some index \<open>j\<close>
  at or after the end of that occurrence. A block has its labels present when \<open>[DESKRIPSI ILUSTRASI]\<close> is followed by \<open>[TEKS CERITA]\<close> and
  \<open>[TEKS CERITA]\<close> is followed by \<open>[TEKS SUARA]\<close>; nothing is asked of the text in between.
\<close>

definition followedBy :: "string \<Rightarrow> string \<Rightarrow> jsstring \<Rightarrow> bool" where
  "followedBy A B s \<longleftrightarrow>
     (\<exists>i \<in> set [0..<length s]. \<exists>j \<in> set [0..<length s].
        labelAt A (drop i s) \<and> i + length A \<le> j \<and> labelAt B (drop j s))"

definition labelsPresent :: "jsstring \<Rightarrow> bool" where
  "labelsPresent rawPage \<longleftrightarrow>
     followedBy ''[DESKRIPSI ILUSTRASI]'' ''[TEKS CERITA]'' rawPage \<and>
     followedBy ''[TEKS CERITA]'' ''[TEKS SUARA]'' rawPage"

section \<open>Properties\<close>

subsection \<open>The story parser\<close>

text \<open>The definitions that evaluate the parser on a given text.\<close>

lemmas parser_eval =
  parseStoryResponse_def rawPages_def js_split_def js_def pageSeparator_def eqs_def lits_def
  parsePage_def match1_def descPattern_def storyPattern_def voicePattern_def canonicalize_def
  is_space_def is_digit_def substring_def trim_def

text \<open>
  What the matcher does on the shapes that the section patterns are made of: a run of
  literals, and the lazy \<open>[\s\S]*?\<close>, which stops at the first place where the rest of the
  pattern matches.
\<close>

lemma rxm_lits:
  "rxm (lits L @ rs) s p g cap =
     (if labelAt L s then rxm rs (drop (length L) s) (p + length L) g cap else None)"
proof (induction L arbitrary: s p)
  case Nil
  then show ?case by (simp add: lits_def)
next
  case (Cons l L)
  have l: "lits (l # L) = One (Lit (of_char l)) # lits L" by (simp add: lits_def)
  show ?case
  proof (cases s)
    case Nil
    then show ?thesis by (simp add: l)
  next
    case (Cons c cs)
    then show ?thesis by (simp add: l Cons.IH)
  qed
qed

lemma rxm_lazy_any:
  "rxm (Lazy Any 0 # rs) s p g cap \<noteq> None \<longleftrightarrow>
     (\<exists>k \<le> length s. rxm rs (drop k s) (p + k) g cap \<noteq> None)"
proof (induction s arbitrary: p)
  case Nil
  then show ?case by (simp split: option.splits)
next
  case (Cons x xs)
  show ?case
  proof (cases "rxm rs (x # xs) p g cap")
    case (Some r)
    then have "rxm (Lazy Any 0 # rs) (x # xs) p g cap \<noteq> None" by simp
    moreover have "\<exists>k \<le> length (x # xs). rxm rs (drop k (x # xs)) (p + k) g cap \<noteq> None"
      using Some by (intro exI [of _ 0]) simp
    ultimately show ?thesis by blast
  next
    case None
    then have "rxm (Lazy Any 0 # rs) (x # xs) p g cap = rxm (Lazy Any 0 # rs) xs (p + 1) g cap"
      by simp
    then have "rxm (Lazy Any 0 # rs) (x # xs) p g cap \<noteq> None \<longleftrightarrow>
               (\<exists>k \<le> length xs. rxm rs (drop k xs) (p + 1 + k) g cap \<noteq> None)"
      using Cons.IH [of "p + 1"] by (simp del: rxm.simps)
    also have "\<dots> \<longleftrightarrow> (\<exists>k \<le> length (x # xs). rxm rs (drop k (x # xs)) (p + k) g cap \<noteq> None)"
    proof
      assume "\<exists>k \<le> length xs. rxm rs (drop k xs) (p + 1 + k) g cap \<noteq> None"
      then obtain k where "k \<le> length xs" "rxm rs (drop k xs) (p + 1 + k) g cap \<noteq> None" by blast
      then show "\<exists>k \<le> length (x # xs). rxm rs (drop k (x # xs)) (p + k) g cap \<noteq> None"
        by (intro exI [of _ "Suc k"]) simp
    next
      assume "\<exists>k \<le> length (x # xs). rxm rs (drop k (x # xs)) (p + k) g cap \<noteq> None"
      then obtain k where k: "k \<le> length (x # xs)" "rxm rs (drop k (x # xs)) (p + k) g cap \<noteq> None"
        by blast
      with None obtain j where "k = Suc j" by (cases k) auto
      with k show "\<exists>k \<le> length xs. rxm rs (drop k xs) (p + 1 + k) g cap \<noteq> None"
        by (intro exI [of _ j]) simp
    qed
    finally show ?thesis .
  qed
qed

lemma rx_search_iff:
  "rx_search rs s p \<noteq> None \<longleftrightarrow> (\<exists>k \<le> length s. rxm rs (drop k s) (p + k) 0 None \<noteq> None)"
proof (induction s arbitrary: p)
  case Nil
  then show ?case by simp
next
  case (Cons x xs)
  show ?case
  proof (cases "rxm rs (x # xs) p 0 None")
    case (Some r)
    then have "\<exists>k \<le> length (x # xs). rxm rs (drop k (x # xs)) (p + k) 0 None \<noteq> None"
      by (intro exI [of _ 0]) simp
    with Some show ?thesis by simp
  next
    case None
    then have "rx_search rs (x # xs) p \<noteq> None \<longleftrightarrow>
               (\<exists>k \<le> length xs. rxm rs (drop k xs) (p + 1 + k) 0 None \<noteq> None)"
      using Cons.IH [of "p + 1"] by simp
    also have "\<dots> \<longleftrightarrow> (\<exists>k \<le> length (x # xs). rxm rs (drop k (x # xs)) (p + k) 0 None \<noteq> None)"
    proof
      assume "\<exists>k \<le> length xs. rxm rs (drop k xs) (p + 1 + k) 0 None \<noteq> None"
      then obtain k where "k \<le> length xs" "rxm rs (drop k xs) (p + 1 + k) 0 None \<noteq> None" by blast
      then show "\<exists>k \<le> length (x # xs). rxm rs (drop k (x # xs)) (p + k) 0 None \<noteq> None"
        by (intro exI [of _ "Suc k"]) simp
    next
      assume "\<exists>k \<le> length (x # xs). rxm rs (drop k (x # xs)) (p + k) 0 None \<noteq> None"
      then obtain k where k: "k \<le> length (x # xs)" "rxm rs (drop k (x # xs)) (p + k) 0 None \<noteq> None"
        by blast
      with None obtain j where "k = Suc j" by (cases k) auto
      with k show "\<exists>k \<le> length xs. rxm rs (drop k xs) (p + 1 + k) 0 None \<noteq> None"
        by (intro exI [of _ j]) simp
    qed
    finally show ?thesis .
  qed
qed

lemma parsePage_matches: "parsePage rawPage i \<noteq> None \<longleftrightarrow> blockMatches rawPage"
  by (simp add: parsePage_def blockMatches_def split: option.splits)

lemma parsePage_number: "parsePage rawPage i = Some page \<Longrightarrow> pageNumber page = i + 1"
  by (auto simp add: parsePage_def split: option.splits)

lemma forEachPage_enumerate:
  "forEachPage bs k acc =
     acc @ map (\<lambda>(i, rawPage). the (parsePage rawPage i))
             (filter (\<lambda>(i, rawPage). blockMatches rawPage) (enumerate k bs))"
proof (induction bs arbitrary: k acc)
  case Nil
  then show ?case by simp
next
  case (Cons b bs)
  show ?case
  proof (cases "parsePage b k")
    case None
    then have "\<not> blockMatches b" using parsePage_matches [of b k] by simp
    with None show ?thesis by (simp add: Cons.IH)
  next
    case (Some page)
    then have "blockMatches b" using parsePage_matches [of b k] by simp
    with Some show ?thesis by (simp add: Cons.IH)
  qed
qed

lemma parse_enumerate:
  "parseStoryResponse text =
     map (\<lambda>(i, rawPage). the (parsePage rawPage i))
       (filter (\<lambda>(i, rawPage). blockMatches rawPage) (enumerate 0 (rawPages text)))"
  by (simp add: parseStoryResponse_def forEachPage_enumerate)

lemma numbers_enumerate:
  "map pageNumber (parseStoryResponse text) =
     map (\<lambda>(i, rawPage). i + 1)
       (filter (\<lambda>(i, rawPage). blockMatches rawPage) (enumerate 0 (rawPages text)))"
proof -
  have "pageNumber (the (parsePage rawPage i)) = i + 1" if "blockMatches rawPage" for i rawPage
  proof -
    from that obtain page where "parsePage rawPage i = Some page"
      using parsePage_matches [of rawPage i] by auto
    then show ?thesis using parsePage_number by simp
  qed
  then show ?thesis
    by (simp add: parse_enumerate)
qed

lemma labelAt_length: "labelAt L s \<Longrightarrow> length L \<le> length s"
  by (induction L s rule: labelAt.induct) simp_all

lemma match1_iff: "match1 s rs \<noteq> None \<longleftrightarrow> rx_search rs s 0 \<noteq> None"
  by (simp add: match1_def split: option.splits)

lemma rxm_section:
  "rxm (lits A @ [GroupOpen, Lazy Any 0, GroupClose] @ lits B) t q g cap \<noteq> None \<longleftrightarrow>
     labelAt A t \<and> (\<exists>k \<le> length (drop (length A) t). labelAt B (drop (length A + k) t))"
proof -
  have b: "rxm (GroupClose # lits B) u p g' cap' \<noteq> None \<longleftrightarrow> labelAt B u" for u p g' cap'
    using rxm_lits [of B "[]" u p g' "Some (g', p)"] by simp
  have "rxm ([GroupOpen, Lazy Any 0, GroupClose] @ lits B) u p g cap =
        rxm (Lazy Any 0 # GroupClose # lits B) u p p cap" for u p
    by (simp del: rxm.simps(4))
  then have m: "rxm ([GroupOpen, Lazy Any 0, GroupClose] @ lits B) u p g cap \<noteq> None \<longleftrightarrow>
        (\<exists>k \<le> length u. labelAt B (drop k u))" for u p
    by (simp only: rxm_lazy_any b)
  show ?thesis
  proof (cases "labelAt A t")
    case True
    then have "rxm (lits A @ [GroupOpen, Lazy Any 0, GroupClose] @ lits B) t q g cap =
               rxm ([GroupOpen, Lazy Any 0, GroupClose] @ lits B) (drop (length A) t) (q + length A) g cap"
      by (simp only: rxm_lits if_True)
    with True show ?thesis by (simp only: m drop_drop add.commute simp_thms)
  next
    case False
    then have "rxm (lits A @ [GroupOpen, Lazy Any 0, GroupClose] @ lits B) t q g cap = None"
      by (simp only: rxm_lits if_False)
    with False show ?thesis by simp
  qed
qed

lemma labelAt_inside:
  assumes "labelAt B (drop j s)" and "B \<noteq> []"
  shows "j < length s"
proof -
  from labelAt_length [OF assms(1)] assms(2) have "0 < length s - j" by (cases B) simp_all
  then show ?thesis by simp
qed

lemma match_section:
  assumes "B \<noteq> []"
  shows "match1 s (lits A @ [GroupOpen, Lazy Any 0, GroupClose] @ lits B) \<noteq> None \<longleftrightarrow> followedBy A B s"
proof
  assume "match1 s (lits A @ [GroupOpen, Lazy Any 0, GroupClose] @ lits B) \<noteq> None"
  then obtain i where "i \<le> length s"
    "rxm (lits A @ [GroupOpen, Lazy Any 0, GroupClose] @ lits B) (drop i s) (0 + i) 0 None \<noteq> None"
    unfolding match1_iff rx_search_iff by blast
  then obtain k where "labelAt A (drop i s)" "labelAt B (drop (length A + k) (drop i s))"
    unfolding rxm_section by blast
  then have a: "labelAt A (drop i s)" and b: "labelAt B (drop (i + length A + k) s)"
    by (simp_all add: add.commute add.left_commute)
  from labelAt_inside [OF b assms] have "i + length A + k < length s" .
  then have "i \<in> set [0..<length s]" "i + length A + k \<in> set [0..<length s]" by simp_all
  with a b show "followedBy A B s" unfolding followedBy_def by (meson le_add1)
next
  assume "followedBy A B s"
  then obtain i j where ij: "labelAt A (drop i s)" "i + length A \<le> j" "labelAt B (drop j s)"
    unfolding followedBy_def by blast
  from labelAt_inside [OF ij(3) assms] have j: "j < length s" .
  with ij(2) have i: "i \<le> length s" by simp
  define k where "k = j - (i + length A)"
  from ij(2) have jk: "j = i + length A + k" by (simp add: k_def)
  have "k \<le> length (drop (length A) (drop i s))" using j jk by simp
  moreover have "labelAt B (drop (length A + k) (drop i s))"
    using ij(3) jk by (simp add: add.commute add.left_commute)
  ultimately have "rxm (lits A @ [GroupOpen, Lazy Any 0, GroupClose] @ lits B) (drop i s) (0 + i) 0 None \<noteq> None"
    unfolding rxm_section using ij(1) by blast
  with i show "match1 s (lits A @ [GroupOpen, Lazy Any 0, GroupClose] @ lits B) \<noteq> None"
    unfolding match1_iff rx_search_iff by blast
qed

lemma rxm_voice:
  "rxm voicePattern t q g cap \<noteq> None \<longleftrightarrow> labelAt ''[TEKS SUARA]'' t"
proof -
  have e: "rxm [GroupClose, Alt [eqs] [Eos]] [] p g' cap' \<noteq> None" for p g' cap'
    by (simp add: eqs_def)
  have o: "rxm [GroupOpen, Lazy Any 0, GroupClose, Alt [eqs] [Eos]] u p g cap =
        rxm (Lazy Any 0 # [GroupClose, Alt [eqs] [Eos]]) u p p cap" for u p
    by (simp del: rxm.simps(4))
  have m: "rxm [GroupOpen, Lazy Any 0, GroupClose, Alt [eqs] [Eos]] u p g cap \<noteq> None" for u p
  proof -
    have "rxm [GroupClose, Alt [eqs] [Eos]] (drop (length u) u) (p + length u) p cap \<noteq> None"
      using e by simp
    then have "\<exists>k \<le> length u. rxm [GroupClose, Alt [eqs] [Eos]] (drop k u) (p + k) p cap \<noteq> None"
      by (intro exI [of _ "length u"] conjI le_refl)
    then show ?thesis by (simp only: o rxm_lazy_any)
  qed
  show ?thesis
  proof (cases "labelAt ''[TEKS SUARA]'' t")
    case True
    then have "rxm voicePattern t q g cap =
               rxm [GroupOpen, Lazy Any 0, GroupClose, Alt [eqs] [Eos]]
                 (drop (length ''[TEKS SUARA]'') t) (q + length ''[TEKS SUARA]'') g cap"
      unfolding voicePattern_def by (simp only: rxm_lits if_True)
    with True m show ?thesis by (simp only: simp_thms)
  next
    case False
    then have "rxm voicePattern t q g cap = None"
      unfolding voicePattern_def by (simp only: rxm_lits if_False)
    with False show ?thesis by simp
  qed
qed

lemma match_voice: "match1 s voicePattern \<noteq> None \<longleftrightarrow> (\<exists>i. labelAt ''[TEKS SUARA]'' (drop i s))"
proof
  assume "match1 s voicePattern \<noteq> None"
  then show "\<exists>i. labelAt ''[TEKS SUARA]'' (drop i s)"
    unfolding match1_iff rx_search_iff rxm_voice by blast
next
  assume "\<exists>i. labelAt ''[TEKS SUARA]'' (drop i s)"
  then obtain i where i: "labelAt ''[TEKS SUARA]'' (drop i s)" by blast
  from labelAt_length [OF i] have "i \<le> length s" by (cases "i \<le> length s") auto
  with i show "match1 s voicePattern \<noteq> None"
    unfolding match1_iff rx_search_iff rxm_voice by blast
qed

lemma blockMatches_labels: "blockMatches rawPage \<longleftrightarrow> labelsPresent rawPage"
proof -
  have d: "match1 rawPage descPattern \<noteq> None \<longleftrightarrow> followedBy ''[DESKRIPSI ILUSTRASI]'' ''[TEKS CERITA]'' rawPage"
    unfolding descPattern_def by (rule match_section) simp
  have s: "match1 rawPage storyPattern \<noteq> None \<longleftrightarrow> followedBy ''[TEKS CERITA]'' ''[TEKS SUARA]'' rawPage"
    unfolding storyPattern_def by (rule match_section) simp
  have v: "followedBy ''[TEKS CERITA]'' ''[TEKS SUARA]'' rawPage \<Longrightarrow> match1 rawPage voicePattern \<noteq> None"
    unfolding match_voice followedBy_def by blast
  show ?thesis
    unfolding blockMatches_def labelsPresent_def d s using v by blast
qed

lemma labels_enumerate:
  "filter (\<lambda>(i, rawPage). blockMatches rawPage) es = filter (\<lambda>(i, rawPage). labelsPresent rawPage) es"
  by (simp add: blockMatches_labels)

lemma filter_snd_enumerate:
  "length (filter (\<lambda>(i, b). P b) (enumerate k bs)) = length (filter P bs)"
  by (induction bs arbitrary: k) simp_all

lemma numbers_sorted:
  "sorted_wrt (<) (map (\<lambda>(i, b). i + 1) (filter Q (enumerate k bs)))"
proof -
  have "sorted_wrt (\<lambda>x y. fst x < fst y) (enumerate k bs)"
    using sorted_wrt_map [of "(<)" fst "enumerate k bs"] by (simp add: map_fst_enumerate)
  then have "sorted_wrt (\<lambda>x y. fst x < fst y) (filter Q (enumerate k bs))"
    by (rule sorted_wrt_filter)
  then show ?thesis
    by (simp add: sorted_wrt_map case_prod_beta)
qed

lemma numbers_range:
  assumes "n \<in> set (map (\<lambda>(i, b). i + 1) (filter Q (enumerate 0 bs)))"
  shows "1 \<le> n \<and> n \<le> length bs"
proof -
  from assms obtain i b where "(i, b) \<in> set (enumerate 0 bs)" "n = i + 1" by auto
  then show ?thesis by (simp add: in_set_enumerate_eq)
qed

lemma numbers_prefix:
  assumes k: "k \<le> length bs"
    and good: "\<forall>i < k. P (bs ! i)"
    and bad: "\<forall>i. k \<le> i \<and> i < length bs \<longrightarrow> \<not> P (bs ! i)"
  shows "map (\<lambda>(i, b). i + 1) (filter (\<lambda>(i, b). P b) (enumerate 0 bs)) = [1..<k + 1]"
proof -
  have e: "enumerate 0 bs = enumerate 0 (take k bs) @ enumerate k (drop k bs)"
    using k enumerate_append_eq [of 0 "take k bs" "drop k bs"] by (simp add: min_absorb2)
  have a: "filter (\<lambda>(i, b). P b) (enumerate 0 (take k bs)) = enumerate 0 (take k bs)"
    using good k by (auto simp add: filter_id_conv in_set_enumerate_eq)
  have b: "filter (\<lambda>(i, b). P b) (enumerate k (drop k bs)) = []"
    using bad k by (auto simp add: filter_empty_conv in_set_enumerate_eq)
  have "map (\<lambda>(i, b). i + 1) (enumerate 0 (take k bs)) =
        map (\<lambda>p. Suc (fst p)) (enumerate 0 (take k bs))"
    by (simp add: case_prod_beta)
  also have "\<dots> = map Suc (map fst (enumerate 0 (take k bs)))"
    by (simp only: map_map comp_def)
  also have "\<dots> = map Suc [0..<k]"
    using k by (simp only: map_fst_enumerate) (simp add: min_absorb2)
  also have "\<dots> = [1..<k + 1]"
    by (simp add: map_Suc_upt)
  finally show ?thesis by (simp add: e a b)
qed

text \<open>
  C1, as amended. The parser returns exactly one page for each block (the pieces of the
  text after the first separator) whose labels are present, that is in which
  \<open>[DESKRIPSI ILUSTRASI]\<close> is followed by \<open>[TEKS CERITA]\<close> and \<open>[TEKS CERITA]\<close> is
  followed by \<open>[TEKS SUARA]\<close>, in the order of the text.
  The \<open>pageNumber\<close> of a page is the position of its block among all blocks, dropped
  blocks included, counted from 1; it is computed from that position and not read from
  the \<open>{N}\<close> token of the separator. So the numbers are strictly increasing and lie
  between 1 and the number of blocks, and they are \<open>1..K\<close> whenever the \<open>K\<close> blocks with
  labels present come before all dropped blocks.
\<close>

theorem parse_numbers_by_position:
  "parseStoryResponse text =
     map (\<lambda>(i, rawPage). the (parsePage rawPage i))
       (filter (\<lambda>(i, rawPage). labelsPresent rawPage) (enumerate 0 (rawPages text))) \<and>
   map pageNumber (parseStoryResponse text) =
     map (\<lambda>(i, rawPage). i + 1)
       (filter (\<lambda>(i, rawPage). labelsPresent rawPage) (enumerate 0 (rawPages text))) \<and>
   length (parseStoryResponse text) = length (filter labelsPresent (rawPages text)) \<and>
   sorted_wrt (<) (map pageNumber (parseStoryResponse text)) \<and>
   (\<forall>n. n \<in> set (map pageNumber (parseStoryResponse text)) \<longrightarrow>
        1 \<le> n \<and> n \<le> length (rawPages text)) \<and>
   (\<forall>k. k \<le> length (rawPages text) \<and>
        (\<forall>i < k. labelsPresent (rawPages text ! i)) \<and>
        (\<forall>i. k \<le> i \<and> i < length (rawPages text) \<longrightarrow> \<not> labelsPresent (rawPages text ! i)) \<longrightarrow>
        map pageNumber (parseStoryResponse text) = [1..<k + 1])"
proof -
  have p: "parseStoryResponse text =
     map (\<lambda>(i, rawPage). the (parsePage rawPage i))
       (filter (\<lambda>(i, rawPage). labelsPresent rawPage) (enumerate 0 (rawPages text)))"
    by (simp only: parse_enumerate labels_enumerate)
  have n: "map pageNumber (parseStoryResponse text) =
     map (\<lambda>(i, rawPage). i + 1)
       (filter (\<lambda>(i, rawPage). labelsPresent rawPage) (enumerate 0 (rawPages text)))"
    by (simp only: numbers_enumerate labels_enumerate)
  have l: "length (parseStoryResponse text) = length (filter labelsPresent (rawPages text))"
    by (simp add: p filter_snd_enumerate)
  have s: "sorted_wrt (<) (map pageNumber (parseStoryResponse text))"
    by (simp only: n numbers_sorted)
  have r: "\<forall>n. n \<in> set (map pageNumber (parseStoryResponse text)) \<longrightarrow>
        1 \<le> n \<and> n \<le> length (rawPages text)"
    unfolding n using numbers_range by blast
  have k: "\<forall>k. k \<le> length (rawPages text) \<and>
        (\<forall>i < k. labelsPresent (rawPages text ! i)) \<and>
        (\<forall>i. k \<le> i \<and> i < length (rawPages text) \<longrightarrow> \<not> labelsPresent (rawPages text ! i)) \<longrightarrow>
        map pageNumber (parseStoryResponse text) = [1..<k + 1]"
    unfolding n using numbers_prefix [of _ "rawPages text" labelsPresent] by blast
  from p n l s r k show ?thesis by (intro conjI)
qed

theorem parse_numbers_by_position_witness:
  "length (rawPages (js ''==========HALAMAN 7==========[DESKRIPSI ILUSTRASI] A [TEKS CERITA] B [TEKS SUARA] C==========HALAMAN 3==========[DESKRIPSI ILUSTRASI] D [TEKS CERITA] E [TEKS SUARA] F'')) = 2 \<and>
   labelsPresent (rawPages (js ''==========HALAMAN 7==========[DESKRIPSI ILUSTRASI] A [TEKS CERITA] B [TEKS SUARA] C==========HALAMAN 3==========[DESKRIPSI ILUSTRASI] D [TEKS CERITA] E [TEKS SUARA] F'') ! 0) \<and>
   labelsPresent (rawPages (js ''==========HALAMAN 7==========[DESKRIPSI ILUSTRASI] A [TEKS CERITA] B [TEKS SUARA] C==========HALAMAN 3==========[DESKRIPSI ILUSTRASI] D [TEKS CERITA] E [TEKS SUARA] F'') ! 1) \<and>
   map pageNumber (parseStoryResponse (js ''==========HALAMAN 7==========[DESKRIPSI ILUSTRASI] A [TEKS CERITA] B [TEKS SUARA] C==========HALAMAN 3==========[DESKRIPSI ILUSTRASI] D [TEKS CERITA] E [TEKS SUARA] F'')) = [1, 2]"
proof -
  define t where "t = js ''==========HALAMAN 7==========[DESKRIPSI ILUSTRASI] A [TEKS CERITA] B [TEKS SUARA] C==========HALAMAN 3==========[DESKRIPSI ILUSTRASI] D [TEKS CERITA] E [TEKS SUARA] F''"
  have r: "rawPages t = [js ''[DESKRIPSI ILUSTRASI] A [TEKS CERITA] B [TEKS SUARA] C'',
                         js ''[DESKRIPSI ILUSTRASI] D [TEKS CERITA] E [TEKS SUARA] F'']"
    unfolding t_def by (simp add: parser_eval)
  have "blockMatches (js ''[DESKRIPSI ILUSTRASI] A [TEKS CERITA] B [TEKS SUARA] C'')"
    "blockMatches (js ''[DESKRIPSI ILUSTRASI] D [TEKS CERITA] E [TEKS SUARA] F'')"
    by (simp_all add: blockMatches_def parser_eval)
  then have l: "labelsPresent (rawPages t ! 0)" "labelsPresent (rawPages t ! 1)"
    by (simp_all add: blockMatches_labels r)
  have n: "length (rawPages t) = 2" by (simp add: r)
  have a: "\<forall>i < 2. labelsPresent (rawPages t ! i)"
  proof (intro allI impI)
    fix i :: nat assume "i < 2"
    then have "i = 0 \<or> i = 1" by auto
    with l show "labelsPresent (rawPages t ! i)" by auto
  qed
  have h: "2 \<le> length (rawPages t) \<and> (\<forall>i < 2. labelsPresent (rawPages t ! i)) \<and>
        (\<forall>i. 2 \<le> i \<and> i < length (rawPages t) \<longrightarrow> \<not> labelsPresent (rawPages t ! i))"
    using n a by simp
  have "map pageNumber (parseStoryResponse t) = [1..<2 + 1]"
    using parse_numbers_by_position
      [of t, THEN conjunct2, THEN conjunct2, THEN conjunct2, THEN conjunct2, THEN conjunct2,
       rule_format, of 2, OF h] .
  also have "\<dots> = [1, 2]" by (simp add: upt_rec)
  finally show ?thesis using n l unfolding t_def by simp
qed

text \<open>
  C1 as stated fails when a malformed block comes before a well-formed one: of the two
  blocks below the first lacks two sections and is dropped, and the one page that is
  returned carries the number 2, not 1.
\<close>

theorem numbering_counterexample:
  "parseStoryResponse (js ''==========HALAMAN 1==========[TEKS CERITA] x==========HALAMAN 2==========[DESKRIPSI ILUSTRASI] A [TEKS CERITA] B [TEKS SUARA] C'') =
     [\<lparr> pageNumber = 2, illustrationDescription = js ''A'', storyText = js ''B'', voiceText = js ''C'',
        imageUrl = None, audioBuffer = None, isLoadingAssets = True \<rparr>] \<and>
   map pageNumber (parseStoryResponse (js ''==========HALAMAN 1==========[TEKS CERITA] x==========HALAMAN 2==========[DESKRIPSI ILUSTRASI] A [TEKS CERITA] B [TEKS SUARA] C'')) \<noteq> [1]"
  by (simp add: parser_eval)

lemma parsePage_fields:
  "parsePage rawPage index = Some page \<Longrightarrow>
     \<exists>d s v. match1 rawPage descPattern = Some d \<and> match1 rawPage storyPattern = Some s \<and>
       match1 rawPage voicePattern = Some v \<and>
       page = \<lparr> pageNumber = index + 1, illustrationDescription = trim d, storyText = trim s,
                voiceText = trim v, imageUrl = None, audioBuffer = None, isLoadingAssets = True \<rparr>"
  by (auto simp add: parsePage_def split: option.splits)

lemma parse_members:
  "page \<in> set (parseStoryResponse text) \<longleftrightarrow>
     (\<exists>i < length (rawPages text). parsePage (rawPages text ! i) i = Some page)"
proof
  assume "page \<in> set (parseStoryResponse text)"
  then obtain i b where ib: "(i, b) \<in> set (enumerate 0 (rawPages text))" "blockMatches b"
    "page = the (parsePage b i)"
    unfolding parse_enumerate by auto
  from ib(2) obtain q where "parsePage b i = Some q" using parsePage_matches [of b i] by auto
  with ib show "\<exists>i < length (rawPages text). parsePage (rawPages text ! i) i = Some page"
    by (auto simp add: in_set_enumerate_eq)
next
  assume "\<exists>i < length (rawPages text). parsePage (rawPages text ! i) i = Some page"
  then obtain i where i: "i < length (rawPages text)" "parsePage (rawPages text ! i) i = Some page"
    by blast
  then have "blockMatches (rawPages text ! i)" using parsePage_matches [of "rawPages text ! i" i] by simp
  moreover from i have "(i, rawPages text ! i) \<in> set (enumerate 0 (rawPages text))"
    by (simp add: in_set_enumerate_eq)
  ultimately have "(i, rawPages text ! i) \<in>
      set (filter (\<lambda>(i, rawPage). blockMatches rawPage) (enumerate 0 (rawPages text)))"
    by simp
  then have "(\<lambda>(i, rawPage). the (parsePage rawPage i)) (i, rawPages text ! i) \<in> set (parseStoryResponse text)"
    unfolding parse_enumerate set_map by (rule imageI)
  with i show "page \<in> set (parseStoryResponse text)" by simp
qed

text \<open>
  C3, as amended. The pages that the parser returns are the pages of the blocks for which
  \<open>parsePage\<close> gives one; a block gives a page if and only if its labels are present
  (\<open>[DESKRIPSI ILUSTRASI]\<close> followed by \<open>[TEKS CERITA]\<close>, \<open>[TEKS CERITA]\<close> followed by
  \<open>[TEKS SUARA]\<close>, letters in either case), and every other block is dropped. The fields
  of the page are the trimmed captures of the three matches, whether empty or not.
\<close>

theorem parse_emits_iff_labels:
  "(page \<in> set (parseStoryResponse text) \<longleftrightarrow>
      (\<exists>i < length (rawPages text). parsePage (rawPages text ! i) i = Some page)) \<and>
   (parsePage rawPage index \<noteq> None \<longleftrightarrow> labelsPresent rawPage) \<and>
   (parsePage rawPage index = Some page \<longrightarrow>
      (\<exists>d s v. match1 rawPage descPattern = Some d \<and> match1 rawPage storyPattern = Some s \<and>
         match1 rawPage voicePattern = Some v \<and>
         page = \<lparr> pageNumber = index + 1, illustrationDescription = trim d, storyText = trim s,
                  voiceText = trim v, imageUrl = None, audioBuffer = None, isLoadingAssets = True \<rparr>))"
  using parse_members [of page "text"] parsePage_matches [of rawPage index]
    blockMatches_labels [of rawPage] parsePage_fields [of rawPage index page]
  by (intro conjI impI) simp_all

theorem parse_emits_iff_labels_witness:
  "parsePage (js ''[DESKRIPSI ILUSTRASI] A cat.[TEKS CERITA] Once.[TEKS SUARA] Meow.'') 0 =
     Some \<lparr> pageNumber = 1, illustrationDescription = js ''A cat.'', storyText = js ''Once.'',
            voiceText = js ''Meow.'', imageUrl = None, audioBuffer = None, isLoadingAssets = True \<rparr> \<and>
   labelsPresent (js ''[DESKRIPSI ILUSTRASI] A cat.[TEKS CERITA] Once.[TEKS SUARA] Meow.'') \<and>
   parsePage (js ''[DESKRIPSI ILUSTRASI] A cat.[TEKS CERITA] Once.'') 0 = None \<and>
   \<not> labelsPresent (js ''[DESKRIPSI ILUSTRASI] A cat.[TEKS CERITA] Once.'')"
proof -
  have a: "parsePage (js ''[DESKRIPSI ILUSTRASI] A cat.[TEKS CERITA] Once.[TEKS SUARA] Meow.'') 0 =
     Some \<lparr> pageNumber = 1, illustrationDescription = js ''A cat.'', storyText = js ''Once.'',
            voiceText = js ''Meow.'', imageUrl = None, audioBuffer = None, isLoadingAssets = True \<rparr>"
    by (simp add: parser_eval)
  have b: "parsePage (js ''[DESKRIPSI ILUSTRASI] A cat.[TEKS CERITA] Once.'') 0 = None"
    by (simp add: parser_eval)
  from a b
    parse_emits_iff_labels [of _ _ "js ''[DESKRIPSI ILUSTRASI] A cat.[TEKS CERITA] Once.[TEKS SUARA] Meow.''" 0]
    parse_emits_iff_labels [of _ _ "js ''[DESKRIPSI ILUSTRASI] A cat.[TEKS CERITA] Once.''" 0]
  show ?thesis by simp
qed

text \<open>
  C3 as stated fails on a block whose labels are present with nothing but white space
  between them: the block is emitted, with three empty fields.
\<close>

theorem empty_sections_counterexample:
  "parseStoryResponse (js ''==========HALAMAN 1==========[DESKRIPSI ILUSTRASI] [TEKS CERITA][TEKS SUARA]  '') =
     [\<lparr> pageNumber = 1, illustrationDescription = [], storyText = [], voiceText = [],
        imageUrl = None, audioBuffer = None, isLoadingAssets = True \<rparr>]"
  by (simp add: parser_eval)

subsection \<open>Navigation\<close>

text \<open>
  C4. In every viewer state whose page index is above 0, the previous-page handler sets
  the index to the index plus one and never to the index minus one; that is the update of
  the next-page handler, and where the next-page handler moves, both handlers give the
  same state. On the last page of a sequence (index at least 1) the index satisfies
  \<open>0 \<le> currentPageIndex \<le> pages.length - 1\<close> before the handler and is past the end
  after it, where there is no current page.
\<close>

theorem handlePrev_moves_forward:
  assumes "0 < currentPageIndex v"
  shows "handlePrev ps v = v\<lparr>currentPageIndex := currentPageIndex v + 1\<rparr> \<and>
         currentPageIndex (handlePrev ps v) = currentPageIndex v + 1 \<and>
         currentPageIndex (handlePrev ps v) \<noteq> currentPageIndex v - 1 \<and>
         (currentPageIndex v + 1 < length ps \<longrightarrow> handlePrev ps v = handleNext ps v) \<and>
         (currentPageIndex v = length ps - 1 \<longrightarrow>
            currentPageIndex v \<le> length ps - 1 \<and>
            \<not> currentPageIndex (handlePrev ps v) \<le> length ps - 1 \<and>
            currentPage ps (handlePrev ps v) = None)"
  using assms by (auto simp add: handlePrev_def handleNext_def currentPage_def)

theorem handlePrev_moves_forward_witness:
  "0 < currentPageIndex (initialViewer\<lparr>currentPageIndex := 1\<rparr> :: nat Viewer) \<and>
   currentPageIndex (handlePrev [samplePage 1 None, samplePage 2 None]
     (initialViewer\<lparr>currentPageIndex := 1\<rparr> :: nat Viewer)) = 2 \<and>
   currentPage [samplePage 1 None, samplePage 2 None]
     (handlePrev [samplePage 1 None, samplePage 2 None]
        (initialViewer\<lparr>currentPageIndex := 1\<rparr> :: nat Viewer)) = None \<and>
   viewerStep [samplePage 1 None, samplePage 2 None] Slide ClickNext (initialViewer :: nat Viewer) =
     initialViewer\<lparr>currentPageIndex := 1\<rparr> \<and>
   currentPageIndex
     (viewerStep [samplePage 1 None, samplePage 2 None] Slide ClickPrev
        (viewerStep [samplePage 1 None, samplePage 2 None] Slide ClickNext (initialViewer :: nat Viewer))) = 2"
  using handlePrev_moves_forward
    [of "initialViewer\<lparr>currentPageIndex := 1\<rparr> :: nat Viewer" "[samplePage 1 None, samplePage 2 None]"]
  by (simp add: initialViewer_def currentPage_def handleNext_def handlePrev_def pageChangeEffect_def
      stopAudio_def)

subsection \<open>Merging asset resolutions\<close>

lemma updatePage_length: "length (updatePage i u prev) = length prev"
  by (simp add: updatePage_def Let_def)

lemma updatePage_missing: "\<not> i < length prev \<Longrightarrow> updatePage i u prev = prev"
  by (simp add: updatePage_def)

lemma updatePage_other: "j \<noteq> i \<Longrightarrow> updatePage i u prev ! j = prev ! j"
  by (simp add: updatePage_def Let_def)

lemma applyEvent_no_pages: "pages app = [] \<Longrightarrow> pages (applyEvent ev app) = []"
  by (cases ev) (simp_all add: updatePage_def)

lemma fold_applyEvent_no_pages: "pages app = [] \<Longrightarrow> pages (fold applyEvent evs app) = []"
  by (induction evs arbitrary: app) (simp_all add: applyEvent_no_pages)

text \<open>
  The frame of the merge. After \<open>resetApp\<close> the page sequence is empty, and a resolution
  that arrives while it is empty (one merge, or any run of pipeline events) leaves it as
  it is. In general the merge for index \<open>i\<close> returns the sequence unchanged when it has no
  page at \<open>i\<close>; when it has one, the length stays and every page at another index stays.
\<close>

lemma updatePage_frame:
  "pages (resetApp app) = [] \<and>
   updatePage i u (pages (resetApp app)) = pages (resetApp app) \<and>
   pages (fold applyEvent evs (resetApp app)) = pages (resetApp app) \<and>
   (\<not> i < length prev \<longrightarrow> updatePage i u prev = prev) \<and>
   (i < length prev \<longrightarrow>
      length (updatePage i u prev) = length prev \<and>
      (\<forall>j. j \<noteq> i \<longrightarrow> updatePage i u prev ! j = prev ! j))"
proof -
  have r: "pages (resetApp app) = []" by (simp add: resetApp_def)
  have "updatePage i u (pages (resetApp app)) = pages (resetApp app)"
    by (simp add: r updatePage_missing)
  moreover have "pages (fold applyEvent evs (resetApp app)) = pages (resetApp app)"
    by (simp add: r fold_applyEvent_no_pages)
  ultimately show ?thesis
    using r by (simp add: updatePage_missing updatePage_length updatePage_other)
qed

lemma updatePage_frame_example:
  "(0::nat) < length [samplePage 1 None, samplePage 2 None] \<and> (1::nat) \<noteq> 0 \<and>
   updatePage 0 (noUpdates\<lparr>upd_imageUrl := Some (Some (js ''u''))\<rparr>)
     [samplePage 1 None, samplePage 2 None] ! 1 = samplePage 2 None \<and>
   imageUrl (updatePage 0 (noUpdates\<lparr>upd_imageUrl := Some (Some (js ''u''))\<rparr>)
     [samplePage 1 None, samplePage 2 None] ! 0) = Some (js ''u'') \<and>
   \<not> (2::nat) < length [samplePage 1 None, samplePage 2 None] \<and>
   updatePage 2 (noUpdates\<lparr>upd_imageUrl := Some (Some (js ''u''))\<rparr>)
     [samplePage 1 None, samplePage 2 None] = [samplePage 1 None, samplePage 2 None]"
  using updatePage_frame
    [of _ 0 "noUpdates\<lparr>upd_imageUrl := Some (Some (js ''u''))\<rparr>" _
        "[samplePage 1 None, samplePage 2 None]"]
    updatePage_frame
    [of _ 2 "noUpdates\<lparr>upd_imageUrl := Some (Some (js ''u''))\<rparr>" _
        "[samplePage 1 None, samplePage 2 None]"]
  by (simp add: updatePage_def spread_def noUpdates_def samplePage_def truthy_def)

text \<open>
  C9 at a failing input. The app reads a first story of one page whose assets are still
  being generated; the user resets, enters a new topic and generates a second story of
  one page. The resolution of the first story's pipeline arrives after that: the page
  sequence held the second story's page before it and holds that page with the first
  story's image after it, so the stale resolution did not leave the sequence unchanged.
  The check that a page exists at the index is passed, since the second story has a page
  there too.
\<close>

theorem stale_update_after_reset:
  "pages (handleGenerate (Inr [(samplePage 1 None)\<lparr>storyText := js ''A dog.''\<rparr>])
      ((resetApp
          \<lparr> appState = Reading, topic = js ''a cat'', style = js ''Watercolor'', readingMode = Slide,
            pages = [samplePage 1 None], loadingMessage = [], error = None \<rparr>)
        \<lparr>topic := js ''a dog''\<rparr>)) =
     [(samplePage 1 None)\<lparr>storyText := js ''A dog.''\<rparr>] \<and>
   pages (fold applyEvent
      (generateAssetsInBackground (\<lambda>d s. Inr (js ''old'')) (\<lambda>t. Inr None)
         [samplePage 1 None] (js ''Watercolor''))
      (handleGenerate (Inr [(samplePage 1 None)\<lparr>storyText := js ''A dog.''\<rparr>])
         ((resetApp
             \<lparr> appState = Reading, topic = js ''a cat'', style = js ''Watercolor'', readingMode = Slide,
               pages = [samplePage 1 None], loadingMessage = [], error = None \<rparr>)
           \<lparr>topic := js ''a dog''\<rparr>))) =
     [(samplePage 1 (Some (js ''old'')))\<lparr>storyText := js ''A dog.'', isLoadingAssets := False\<rparr>] \<and>
   pages (fold applyEvent
      (generateAssetsInBackground (\<lambda>d s. Inr (js ''old'')) (\<lambda>t. Inr None)
         [samplePage 1 None] (js ''Watercolor''))
      (handleGenerate (Inr [(samplePage 1 None)\<lparr>storyText := js ''A dog.''\<rparr>])
         ((resetApp
             \<lparr> appState = Reading, topic = js ''a cat'', style = js ''Watercolor'', readingMode = Slide,
               pages = [samplePage 1 None], loadingMessage = [], error = None \<rparr>)
           \<lparr>topic := js ''a dog''\<rparr>))) \<noteq>
   pages (handleGenerate (Inr [(samplePage 1 None)\<lparr>storyText := js ''A dog.''\<rparr>])
      ((resetApp
          \<lparr> appState = Reading, topic = js ''a cat'', style = js ''Watercolor'', readingMode = Slide,
            pages = [samplePage 1 None], loadingMessage = [], error = None \<rparr>)
        \<lparr>topic := js ''a dog''\<rparr>))"
  by (simp add: handleGenerate_def resetApp_def generateAssetsInBackground_def assetsForPage_def
      updatePage_def spread_def noUpdates_def samplePage_def truthy_def trim_def is_space_def js_def)

subsection \<open>The text that is narrated\<close>

lemma narrationRequests_append:
  "narrationRequests (a @ b) = narrationRequests a @ narrationRequests b"
  by (simp add: narrationRequests_def)

lemma assetsLoop_narration:
  "narrationRequests (assetsLoop ill nar sty i ps) = map storyText ps"
  by (induction ps arbitrary: i)
     (simp_all add: narrationRequests_append, simp_all add: narrationRequests_def assetsForPage_def)

lemma assetsLoop_voiceText:
  "assetsLoop ill nar sty i (map (\<lambda>p. p\<lparr>voiceText := f p\<rparr>) ps) = assetsLoop ill nar sty i ps"
  by (induction ps arbitrary: i) (simp_all add: assetsForPage_def)

text \<open>
  C10. Whatever the services answer, the narration requests of the pipeline are the
  \<open>storyText\<close> fields of the pages, one for each page in order, and the run of the pipeline
  is the same whatever the \<open>voiceText\<close> fields hold: the pipeline does not read them.
\<close>

theorem narration_uses_storyText:
  "narrationRequests (generateAssetsInBackground ill nar ps sty) = map storyText ps \<and>
   generateAssetsInBackground ill nar (map (\<lambda>p. p\<lparr>voiceText := f p\<rparr>) ps) sty =
   generateAssetsInBackground ill nar ps sty"
  by (simp add: generateAssetsInBackground_def assetsLoop_narration assetsLoop_voiceText)

theorem narration_uses_storyText_witness:
  "narrationRequests
     (generateAssetsInBackground (\<lambda>d s. Inr (js ''u'')) (\<lambda>t. Inr None)
        [samplePage 1 None] (js ''Watercolor'')) = [js ''Once upon a time.''] \<and>
   storyText (samplePage 1 None) \<noteq> voiceText (samplePage 1 None)"
  using narration_uses_storyText
    [of "\<lambda>d s. Inr (js ''u'')" "\<lambda>t. Inr None" "[samplePage 1 None]" "js ''Watercolor''"]
  by (simp add: samplePage_def js_def)

subsection \<open>Illustrations never fail\<close>

lemma firstInlineData_find:
  "firstInlineData parts =
     (case find hasInlineData parts of None \<Rightarrow> None | Some part \<Rightarrow> data (the (inlineData part)))"
  by (induction parts) (auto simp add: hasInlineData_def truthy_def split: option.splits)

lemma generateIllustration_try_cases:
  "generateIllustration_try ai prompt sty = Inr url \<Longrightarrow>
     \<exists>response parts d.
        ai \<lparr> model = ''gemini-2.5-flash-image'', contents = sty @ js '' style. '' @ prompt \<rparr> = Inr response \<and>
        response_parts response = Some parts \<and> firstInlineData parts = Some d \<and>
        url = js ''data:image/png;base64,'' @ d"
  by (auto simp add: generateIllustration_try_def split: sum.splits option.splits)

text \<open>
  C8. For every backend, prompt and style the promise of \<open>generateIllustration\<close> is
  fulfilled with a string, never rejected. When the \<open>try\<close> block fails in any way (the
  request is rejected, the response has no parts, no part carries inline data) the string
  is the placeholder URL; every other result is the \<open>data:image/png;base64,\<close> URI of the
  first part of the response that carries inline data.
\<close>

theorem generateIllustration_total:
  "(\<exists>url. generateIllustration ai random prompt sty = Inr url) \<and>
   (\<forall>e. generateIllustration_try ai prompt sty = Inl e \<longrightarrow>
        generateIllustration ai random prompt sty = Inr (placeholder random)) \<and>
   (\<forall>url. generateIllustration ai random prompt sty = Inr url \<longrightarrow>
        url = placeholder random \<or>
        (\<exists>response parts part.
           ai \<lparr> model = ''gemini-2.5-flash-image'', contents = sty @ js '' style. '' @ prompt \<rparr> = Inr response \<and>
           response_parts response = Some parts \<and>
           find hasInlineData parts = Some part \<and>
           Some url = map_option ((@) (js ''data:image/png;base64,'')) (data (the (inlineData part)))))"
proof (intro conjI allI impI)
  show "\<exists>url. generateIllustration ai random prompt sty = Inr url"
    by (simp add: generateIllustration_def split: sum.splits)
next
  fix e assume "generateIllustration_try ai prompt sty = Inl e"
  then show "generateIllustration ai random prompt sty = Inr (placeholder random)"
    by (simp add: generateIllustration_def)
next
  fix url assume a: "generateIllustration ai random prompt sty = Inr url"
  show "url = placeholder random \<or>
        (\<exists>response parts part.
           ai \<lparr> model = ''gemini-2.5-flash-image'', contents = sty @ js '' style. '' @ prompt \<rparr> = Inr response \<and>
           response_parts response = Some parts \<and>
           find hasInlineData parts = Some part \<and>
           Some url = map_option ((@) (js ''data:image/png;base64,'')) (data (the (inlineData part))))"
  proof (cases "generateIllustration_try ai prompt sty")
    case (Inl e)
    with a show ?thesis by (simp add: generateIllustration_def)
  next
    case (Inr u)
    with a have "u = url" by (simp add: generateIllustration_def)
    with Inr obtain response parts d where
      r: "ai \<lparr> model = ''gemini-2.5-flash-image'', contents = sty @ js '' style. '' @ prompt \<rparr> = Inr response"
        "response_parts response = Some parts" "firstInlineData parts = Some d"
        "url = js ''data:image/png;base64,'' @ d"
      using generateIllustration_try_cases by blast
    from r(3) obtain part where "find hasInlineData parts = Some part" "data (the (inlineData part)) = Some d"
      by (auto simp add: firstInlineData_find split: option.splits)
    with r show ?thesis by auto
  qed
qed

theorem generateIllustration_total_witness:
  "generateIllustration (\<lambda>r. Inl (Error (js ''offline''))) (js ''0.5'') (js ''A cat.'') (js ''Watercolor'') =
     Inr (placeholder (js ''0.5'')) \<and>
   generateIllustration
     (\<lambda>r. Inr \<lparr> response_text = None,
                 response_parts = Some [\<lparr>inlineData = None\<rparr>,
                                        \<lparr>inlineData = Some \<lparr>data = Some (js ''QUJD'')\<rparr>\<rparr>] \<rparr>)
     (js ''0.5'') (js ''A cat.'') (js ''Watercolor'') = Inr (js ''data:image/png;base64,QUJD'')"
  using generateIllustration_total
    [of "\<lambda>r. Inl (Error (js ''offline''))" "js ''0.5''" "js ''A cat.''" "js ''Watercolor''"]
  by (simp add: generateIllustration_def generateIllustration_try_def truthy_def js_def)

subsection \<open>Failures of the story text are fatal\<close>

lemma failGenerate_state: "appState (failGenerate e app) = Error_state"
  by (simp add: failGenerate_def)

text \<open>
  C7. \<open>generateStoryText\<close> fails with "No text generated" when the text of the response is
  undefined or empty, and passes a rejection of the backend on. With a topic that is not
  blank, \<open>handleGenerate\<close> ends in the error state exactly when the backend returned no
  text (the request was rejected, or the response had no text) or the parser yielded no
  page; in every other case it ends in the reading state with the parsed pages. From
  the state it ends in, \<open>resetApp\<close> leads back to the input state.
\<close>

theorem story_generation_fatal:
  "(\<forall>response. ai \<lparr> model = ''gemini-2.5-flash'',
                      contents = js ''Buatkan storybook berdasarkan: '' @ topic app @
                                 js ''. Gaya ilustrasi: '' @ style app @ js ''.'' \<rparr> = Inr response \<and>
                 \<not> truthy (response_text response) \<longrightarrow>
        generateStoryText ai (topic app) (style app) = Inl (Error (js ''No text generated''))) \<and>
   (trim (topic app) \<noteq> [] \<longrightarrow>
      (appState (handleGenerate (generateStoryText ai (topic app) (style app)) app) = Error_state \<longleftrightarrow>
         (case ai \<lparr> model = ''gemini-2.5-flash'',
                    contents = js ''Buatkan storybook berdasarkan: '' @ topic app @
                               js ''. Gaya ilustrasi: '' @ style app @ js ''.'' \<rparr> of
            Inl e \<Rightarrow> True
          | Inr response \<Rightarrow>
              \<not> truthy (response_text response) \<or>
              parseStoryResponse (the (response_text response)) = [])) \<and>
      (appState (handleGenerate (generateStoryText ai (topic app) (style app)) app) \<noteq> Error_state \<longrightarrow>
         appState (handleGenerate (generateStoryText ai (topic app) (style app)) app) = Reading \<and>
         generateStoryText ai (topic app) (style app) =
           Inr (pages (handleGenerate (generateStoryText ai (topic app) (style app)) app))) \<and>
      appState (resetApp (handleGenerate (generateStoryText ai (topic app) (style app)) app)) = Input)"
  by (auto simp add: generateStoryText_def handleGenerate_def Let_def failGenerate_state resetApp_def
      split: sum.splits)

theorem story_generation_fatal_witness:
  "trim (topic \<lparr> appState = Input, topic = js ''a cat'', style = js ''Watercolor'', readingMode = Slide,
                  pages = [], loadingMessage = [], error = None \<rparr>) \<noteq> [] \<and>
   appState (handleGenerate
      (generateStoryText (\<lambda>r. Inr \<lparr> response_text = Some [], response_parts = None \<rparr>)
         (js ''a cat'') (js ''Watercolor''))
      \<lparr> appState = Input, topic = js ''a cat'', style = js ''Watercolor'', readingMode = Slide,
        pages = [], loadingMessage = [], error = None \<rparr>) = Error_state \<and>
   error (handleGenerate
      (generateStoryText (\<lambda>r. Inr \<lparr> response_text = Some [], response_parts = None \<rparr>)
         (js ''a cat'') (js ''Watercolor''))
      \<lparr> appState = Input, topic = js ''a cat'', style = js ''Watercolor'', readingMode = Slide,
        pages = [], loadingMessage = [], error = None \<rparr>) = Some (js ''No text generated'') \<and>
   appState (handleGenerate
      (generateStoryText
         (\<lambda>r. Inr \<lparr> response_text = Some (js ''==========HALAMAN 1==========[DESKRIPSI ILUSTRASI] A [TEKS CERITA] B [TEKS SUARA] C''),
                     response_parts = None \<rparr>)
         (js ''a cat'') (js ''Watercolor''))
      \<lparr> appState = Input, topic = js ''a cat'', style = js ''Watercolor'', readingMode = Slide,
        pages = [], loadingMessage = [], error = None \<rparr>) = Reading"
proof -
  have p: "parseStoryResponse (js ''==========HALAMAN 1==========[DESKRIPSI ILUSTRASI] A [TEKS CERITA] B [TEKS SUARA] C'') =
     [\<lparr> pageNumber = 1, illustrationDescription = js ''A'', storyText = js ''B'', voiceText = js ''C'',
        imageUrl = None, audioBuffer = None, isLoadingAssets = True \<rparr>]"
    by (simp add: parser_eval)
  have t: "js ''==========HALAMAN 1==========[DESKRIPSI ILUSTRASI] A [TEKS CERITA] B [TEKS SUARA] C'' \<noteq> []"
    by (simp add: js_def)
  have r: "appState (handleGenerate
      (generateStoryText
         (\<lambda>r. Inr \<lparr> response_text = Some (js ''==========HALAMAN 1==========[DESKRIPSI ILUSTRASI] A [TEKS CERITA] B [TEKS SUARA] C''),
                     response_parts = None \<rparr>)
         (js ''a cat'') (js ''Watercolor''))
      \<lparr> appState = Input, topic = js ''a cat'', style = js ''Watercolor'', readingMode = Slide,
        pages = [], loadingMessage = [], error = None \<rparr>) = Reading"
    using t by (simp add: generateStoryText_def handleGenerate_def truthy_def p)
      (simp add: trim_def is_space_def js_def)
  show ?thesis
    using r story_generation_fatal
      [of "\<lambda>r. Inr \<lparr> response_text = Some [], response_parts = None \<rparr>"
          "\<lparr> appState = Input, topic = js ''a cat'', style = js ''Watercolor'', readingMode = Slide,
             pages = [], loadingMessage = [], error = None \<rparr>"]
    by (simp add: generateStoryText_def handleGenerate_def failGenerate_def truthy_def trim_def
        is_space_def js_def)
qed

subsection \<open>The raw PCM fallback\<close>

lemma word_cat_bytes: "word_cat (ucast (drop_bit 8 w) :: 8 word) (ucast w :: 8 word) = (w :: 16 word)"
  by (rule bit_word_eqI) (auto simp add: bit_simps)

lemma int16_elements_encode: "int16_elements (encode_pcm16le samples) = samples"
  by (induction samples) (simp_all add: encode_pcm16le_def word_cat_bytes)

lemma length_encode: "length (encode_pcm16le samples) = 2 * length samples"
  by (induction samples) (simp_all add: encode_pcm16le_def)

lemma fold_update_upt:
  "k \<le> length cd \<Longrightarrow> fold (\<lambda>i cd. cd[i := f i]) [0..<k] cd = map f [0..<k] @ drop k cd"
proof (induction k)
  case 0
  then show ?case by simp
next
  case (Suc k)
  then have "k < length cd" by simp
  then have d: "drop k cd = cd ! k # drop (Suc k) cd"
    by (simp add: Cons_nth_drop_Suc)
  from Suc show ?case
    by (simp add: d list_update_append)
qed

lemma fillChannel_mono:
  "fillChannel dataInt16 (Suc 0) (length dataInt16) 0 (replicate (length dataInt16) 0) =
   map (\<lambda>w. real_of_int (sint w) / 32768) dataInt16"
proof -
  have "fillChannel dataInt16 (Suc 0) (length dataInt16) 0 (replicate (length dataInt16) 0) =
        map (\<lambda>i. real_of_int (sint (dataInt16 ! i)) / 32768) [0..<length dataInt16]"
    by (simp add: fillChannel_def fold_update_upt)
  also have "\<dots> = map (\<lambda>w. real_of_int (sint w) / 32768) (map ((!) dataInt16) [0..<length dataInt16])"
    by (simp add: comp_def)
  finally show ?thesis by (simp add: map_nth)
qed

lemma decode_fallback:
  assumes "samples \<noteq> []" and "native (encode_pcm16le samples) = None"
  shows "decodeAudioData native limits (encode_pcm16le samples) 24000 1 =
         Inr \<lparr> sampleRate = 24000, channels = [map (\<lambda>w. real_of_int (sint w) / 32768) samples] \<rparr>"
  using assms
  by (simp add: decodeAudioData_def new_Int16Array_def length_encode int16_elements_encode
      createBuffer_def fillChannels_def fillChannel_mono Let_def)

lemma sample_range: "- 1 \<le> real_of_int (sint (w :: 16 word)) / 32768 \<and> real_of_int (sint w) / 32768 < 1"
proof -
  have "- (2 ^ 15) \<le> sint w" "sint w < 2 ^ 15"
    using sint_ge [of w] sint_lt [of w] by simp_all
  then have "real_of_int (- (2 ^ 15)) \<le> real_of_int (sint w)" "real_of_int (sint w) < real_of_int (2 ^ 15)"
    by (simp_all only: of_int_le_iff of_int_less_iff)
  then show ?thesis by simp
qed

text \<open>
  C6, as amended. For every array of signed 16-bit samples that is not empty, encoded as
  little-endian bytes that the decoder of the platform rejects, and whatever the nominal
  ranges of the context, the fallback at 24000 Hz and 1 channel returns a buffer with one channel and one frame for each sample, and each
  frame is the sample divided by 32768: it lies in \<open>[-1, 1]\<close> and is within \<open>1/32768\<close> of
  the normalised sample (it is equal to it).
\<close>

theorem pcm_roundtrip:
  assumes "samples \<noteq> []" and "native (encode_pcm16le samples) = None"
  shows "\<exists>buffer. decodeAudioData native limits (encode_pcm16le samples) 24000 1 = Inr buffer \<and>
           sampleRate buffer = 24000 \<and> length (channels buffer) = 1 \<and>
           length (channels buffer ! 0) = length samples \<and>
           (\<forall>i < length samples.
              channels buffer ! 0 ! i = real_of_int (sint (samples ! i)) / 32768 \<and>
              - 1 \<le> channels buffer ! 0 ! i \<and> channels buffer ! 0 ! i \<le> 1 \<and>
              \<bar>channels buffer ! 0 ! i - real_of_int (sint (samples ! i)) / 32768\<bar> \<le> 1 / 32768)"
  using decode_fallback [of samples native limits] assms sample_range
  by (auto simp add: less_imp_le)

theorem pcm_roundtrip_witness:
  "[1, - 32768] \<noteq> ([] :: 16 word list) \<and>
   (\<lambda>_. None :: AudioBuffer option) (encode_pcm16le [1, - 32768]) = None \<and>
   (\<exists>buffer. decodeAudioData (\<lambda>_. None) \<lparr>moreChannels = 0, lowerRates = 0, higherRates = 0\<rparr>
        (encode_pcm16le [1, - 32768]) 24000 1 = Inr buffer \<and>
      length (channels buffer ! 0) = 2 \<and>
      channels buffer ! 0 ! 0 = 1 / 32768 \<and> channels buffer ! 0 ! 1 = - 1)"
proof -
  have h: "[1, - 32768] \<noteq> ([] :: 16 word list)" by simp
  have n: "(\<lambda>_. None :: AudioBuffer option) (encode_pcm16le [1, - 32768]) = None" by simp
  from pcm_roundtrip
    [of "[1, - 32768]" "\<lambda>_. None" "\<lparr>moreChannels = 0, lowerRates = 0, higherRates = 0\<rparr>", OF h n]
  obtain buffer where
    b: "decodeAudioData (\<lambda>_. None) \<lparr>moreChannels = 0, lowerRates = 0, higherRates = 0\<rparr>
          (encode_pcm16le [1, - 32768]) 24000 1 = Inr buffer"
       "length (channels buffer ! 0) = length [1, - 32768 :: 16 word]"
    and a: "\<forall>i < length [1, - 32768 :: 16 word].
        channels buffer ! 0 ! i = real_of_int (sint ([1, - 32768 :: 16 word] ! i)) / 32768 \<and>
        - 1 \<le> channels buffer ! 0 ! i \<and> channels buffer ! 0 ! i \<le> 1 \<and>
        \<bar>channels buffer ! 0 ! i - real_of_int (sint ([1, - 32768 :: 16 word] ! i)) / 32768\<bar> \<le> 1 / 32768"
    by blast
  from a [rule_format, of 0] have c0: "channels buffer ! 0 ! 0 = 1 / 32768" by simp
  from a [rule_format, of 1] have c1: "channels buffer ! 0 ! 1 = - 1" by simp
  from b c0 c1 h n show ?thesis by simp
qed

text \<open>
  C6 as stated fails on the empty array: the fallback asks \<open>createBuffer\<close> for a buffer of
  0 frames, which raises, so that no buffer results.
\<close>

theorem pcm_empty_counterexample:
  "\<not> (\<exists>buffer. decodeAudioData (\<lambda>_. None) \<lparr>moreChannels = 0, lowerRates = 0, higherRates = 0\<rparr>
          (encode_pcm16le []) 24000 1 = Inr buffer)"
  by (simp add: decodeAudioData_def encode_pcm16le_def new_Int16Array_def createBuffer_def)

subsection \<open>PDF export\<close>

text \<open>
  The pages of the saved document. From the second page of the sequence on, every page
  with an image adds a page to the document and draws on it; the first page of the
  sequence draws on the page that the document starts with. So the document of a
  sequence that is not empty has one page, and one more for every page with an image
  after the first: as many as there are pages with an image only if the first page has
  one.
\<close>

lemma addImage_pages:
  "doc \<noteq> [] \<Longrightarrow> length (addImage img doc) = length doc \<and> concat (addImage img doc) = concat doc @ [img]"
proof -
  assume "doc \<noteq> []"
  then have "concat doc = concat (butlast doc) @ last doc"
    using concat_append [of "butlast doc" "[last doc]"] by simp
  with \<open>doc \<noteq> []\<close> show ?thesis by (simp add: addImage_def)
qed

lemma exportLoop_later:
  assumes "exportLoop h i ps doc = Inr doc'" and "0 < i" and "doc \<noteq> []"
  shows "length doc' = length doc + length (filter (\<lambda>p. truthy (imageUrl p)) ps) \<and>
         (\<exists>imgs. concat doc' = concat doc @ imgs \<and>
            map Inr imgs = map h (filter (\<lambda>p. truthy (imageUrl p)) ps))"
  using assms
proof (induction ps arbitrary: i doc)
  case Nil
  then show ?case by simp
next
  case (Cons p ps)
  show ?case
  proof (cases "truthy (imageUrl p)")
    case False
    with Cons.prems have "exportLoop h (i + 1) ps doc = Inr doc'" by simp
    from Cons.IH [OF this] Cons.prems False show ?thesis by simp
  next
    case True
    with Cons.prems obtain img where img: "h p = Inr img"
      and r: "exportLoop h (i + 1) ps (addImage img (addPage doc)) = Inr doc'"
      by (auto split: sum.splits)
    have a: "addPage doc \<noteq> []" "length (addPage doc) = length doc + 1" "concat (addPage doc) = concat doc"
      by (simp_all add: addPage_def)
    from addImage_pages [OF a(1), of img] a
    have b: "addImage img (addPage doc) \<noteq> []"
      "length (addImage img (addPage doc)) = length doc + 1"
      "concat (addImage img (addPage doc)) = concat doc @ [img]"
      by auto
    from Cons.IH [OF r _ b(1)] obtain imgs where
      "length doc' = length (addImage img (addPage doc)) + length (filter (\<lambda>p. truthy (imageUrl p)) ps)"
      "concat doc' = concat (addImage img (addPage doc)) @ imgs"
      "map Inr imgs = map h (filter (\<lambda>p. truthy (imageUrl p)) ps)"
      by auto
    with b True img show ?thesis by (intro conjI exI [of _ "img # imgs"]) simp_all
  qed
qed

lemma exportLoop_pages:
  assumes "exportLoop h 0 (p # ps) new_jsPDF = Inr doc"
  shows "length doc = 1 + length (filter (\<lambda>p. truthy (imageUrl p)) ps)"
proof (cases "truthy (imageUrl p)")
  case False
  with assms have "exportLoop h 1 ps new_jsPDF = Inr doc" by simp
  from exportLoop_later [OF this] show ?thesis by (simp add: new_jsPDF_def)
next
  case True
  with assms obtain img where "exportLoop h 1 ps (addImage img new_jsPDF) = Inr doc"
    by (auto split: sum.splits)
  from exportLoop_later [OF this] show ?thesis by (simp add: new_jsPDF_def addImage_def)
qed

lemma handleDownloadPdf_pages:
  "handleDownloadPdf True h (p # ps) = Some doc \<Longrightarrow>
     length doc = 1 + length (filter (\<lambda>p. truthy (imageUrl p)) ps)"
  using exportLoop_pages [of h p ps doc]
  by (simp add: handleDownloadPdf_def split: sum.splits)

text \<open>
  C2 at two inputs. A first page without an image followed by a page with one gives a
  PDF of two pages, an empty one and the picture of the second page: the page count is 2
  where one page has an image. A lone page without an image gives a PDF of one empty
  page. (The picture of a page stands for itself here: \<open>html2canvas\<close> is \<open>Inr\<close>.)
\<close>

theorem pdf_blank_page:
  "handleDownloadPdf True Inr [samplePage 1 None, samplePage 2 (Some (js ''u''))] =
     Some [[], [samplePage 2 (Some (js ''u''))]] \<and>
   handleDownloadPdf True Inr [samplePage 1 None] = Some [[]]"
  by (simp add: handleDownloadPdf_def new_jsPDF_def addPage_def addImage_def samplePage_def truthy_def js_def)

subsection \<open>The playback transport\<close>

lemma transportInv_playing:
  "transportInv v \<Longrightarrow> n < length (nodes v) \<Longrightarrow> playing (nodes v ! n) \<Longrightarrow> sourceNodeRef v = Some n"
  unfolding transportInv_def by blast

lemma transportInv_ref:
  "transportInv v \<Longrightarrow> sourceNodeRef v = Some n \<Longrightarrow> n < length (nodes v) \<and> started (nodes v ! n)"
  unfolding transportInv_def by blast

lemma transportInv_buffer:
  "transportInv v \<Longrightarrow> playingAudioBuffer v = Some a \<Longrightarrow>
     \<exists>n. sourceNodeRef v = Some n \<and> node_buffer (nodes v ! n) = a"
  unfolding transportInv_def by blast

lemma stopAudio_silent:
  assumes "transportInv v" and "n < length (nodes (stopAudio v))"
  shows "\<not> playing (nodes (stopAudio v) ! n)"
proof (cases "sourceNodeRef v")
  case None
  with assms show ?thesis by (auto simp add: transportInv_def stopAudio_def)
next
  case (Some m)
  with assms have m: "m < length (nodes v)" "started (nodes v ! m)"
    by (auto simp add: transportInv_def)
  show ?thesis
  proof (cases "n = m")
    case True
    with Some m show ?thesis by (simp add: stopAudio_def stopAndDisconnect_def)
  next
    case False
    with Some assms show ?thesis by (auto simp add: stopAudio_def transportInv_def)
  qed
qed

lemma stopAudio_fields:
  "sourceNodeRef (stopAudio v) = None" "playingAudioBuffer (stopAudio v) = None"
  "length (nodes (stopAudio v)) = length (nodes v)"
  "suspendedPlays (stopAudio v) = suspendedPlays v" "audioContextRef (stopAudio v) = audioContextRef v"
  "currentPageIndex (stopAudio v) = currentPageIndex v"
  by (simp_all add: stopAudio_def split: option.splits)

lemma stopAudio_node:
  assumes "transportInv v" and "sourceNodeRef v = Some n"
  shows "\<not> playing (nodes (stopAudio v) ! n)" and "\<not> connected (nodes (stopAudio v) ! n)"
  using assms by (auto simp add: transportInv_def stopAudio_def stopAndDisconnect_def)

lemma stopAudio_inv: "transportInv v \<Longrightarrow> transportInv (stopAudio v)"
  using stopAudio_silent [of v]
  by (simp add: transportInv_def [of "stopAudio v"] stopAudio_fields)

lemma activeNodes_silent:
  "(\<And>n. n < length (nodes v) \<Longrightarrow> \<not> playing (nodes v ! n)) \<Longrightarrow> activeNodes v = []"
  by (simp add: activeNodes_def filter_empty_conv)

lemma playAudio_rest_fields:
  "nodes (playAudio_rest buf seen v) =
     nodes (stopAudio v) @ [\<lparr> node_buffer = buf, connected = True, started = True, playing = True,
                               closure_playingAudioBuffer = seen \<rparr>]"
  "sourceNodeRef (playAudio_rest buf seen v) = Some (length (nodes v))"
  "playingAudioBuffer (playAudio_rest buf seen v) = Some buf"
  by (simp_all add: playAudio_rest_def Let_def stopAudio_fields)

lemma playAudio_rest_inv:
  assumes "transportInv v"
  shows "transportInv (playAudio_rest buf seen v)"
  using stopAudio_silent [OF assms]
  by (auto simp add: transportInv_def [of "playAudio_rest buf seen v"] playAudio_rest_fields
      stopAudio_fields nth_append)

lemma playAudio_rest_active:
  assumes "transportInv v"
  shows "activeNodes (playAudio_rest buf seen v) = [length (nodes v)]"
proof -
  have "filter (\<lambda>n. playing ((nodes (stopAudio v) @ [\<lparr> node_buffer = buf, connected = True, started = True,
            playing = True, closure_playingAudioBuffer = seen \<rparr>]) ! n)) [0..<length (nodes v)] = []"
    using stopAudio_silent [OF assms] by (simp add: filter_empty_conv nth_append stopAudio_fields)
  then show ?thesis
    by (simp add: activeNodes_def playAudio_rest_fields stopAudio_fields nth_append)
qed

lemma playAudio_rest_old:
  assumes "transportInv v" and "sourceNodeRef v = Some n"
  shows "\<not> playing (nodes (playAudio_rest buf seen v) ! n)"
    and "\<not> connected (nodes (playAudio_rest buf seen v) ! n)"
proof -
  from assms have "n < length (nodes (stopAudio v))"
    by (simp add: transportInv_def stopAudio_fields)
  then show "\<not> playing (nodes (playAudio_rest buf seen v) ! n)"
    and "\<not> connected (nodes (playAudio_rest buf seen v) ! n)"
    using stopAudio_node [OF assms] by (simp_all add: playAudio_rest_fields nth_append)
qed

lemma transportInv_context:
  "transportInv (v\<lparr>audioContextRef := c\<rparr>) = transportInv v"
  "transportInv (v\<lparr>suspendedPlays := s\<rparr>) = transportInv v"
  "transportInv (v\<lparr>currentPageIndex := i\<rparr>) = transportInv v"
  by (simp_all add: transportInv_def)

lemma playAudio_inv: "transportInv v \<Longrightarrow> transportInv (playAudio fresh buf v)"
  by (simp add: playAudio_def Let_def playAudio_rest_inv transportInv_context)

lemma toggleAudio_inv: "transportInv v \<Longrightarrow> transportInv (toggleAudio fresh buffer v)"
  by (simp add: toggleAudio_def stopAudio_inv playAudio_inv split: option.splits)

lemma resumed_inv: "transportInv v \<Longrightarrow> transportInv (resumed v)"
  by (simp add: resumed_def playAudio_rest_inv transportInv_context split: list.splits)

lemma sourceEnded_fields:
  "sourceNodeRef (sourceEnded n v) = sourceNodeRef v"
  "length (nodes (sourceEnded n v)) = length (nodes v)"
  "playingAudioBuffer (sourceEnded n v) = None \<or> playingAudioBuffer (sourceEnded n v) = playingAudioBuffer v"
  by (cases "n < length (nodes v)";
      cases "closure_playingAudioBuffer (nodes v ! n) = Some (node_buffer (nodes v ! n))";
      simp add: sourceEnded_def Let_def)+

lemma sourceEnded_node:
  assumes "k < length (nodes v)"
  shows "playing (nodes (sourceEnded n v) ! k) \<longleftrightarrow> k \<noteq> n \<and> playing (nodes v ! k)"
    and "started (nodes (sourceEnded n v) ! k) = started (nodes v ! k)"
    and "node_buffer (nodes (sourceEnded n v) ! k) = node_buffer (nodes v ! k)"
  using assms
  by (cases "n < length (nodes v)";
      cases "closure_playingAudioBuffer (nodes v ! n) = Some (node_buffer (nodes v ! n))";
      cases "k = n"; simp add: sourceEnded_def Let_def)+

lemma sourceEnded_inv:
  assumes "transportInv v"
  shows "transportInv (sourceEnded n v)"
  unfolding transportInv_def [of "sourceEnded n v"] sourceEnded_fields(1,2)
proof (intro conjI allI impI)
  fix k assume k: "k < length (nodes v)" and "playing (nodes (sourceEnded n v) ! k)"
  then have "playing (nodes v ! k)" by (simp add: sourceEnded_node)
  with assms k show "sourceNodeRef v = Some k" by (rule transportInv_playing)
next
  fix k assume "sourceNodeRef v = Some k"
  with assms have k: "k < length (nodes v) \<and> started (nodes v ! k)" by (rule transportInv_ref)
  then show "k < length (nodes v)" "started (nodes (sourceEnded n v) ! k)"
    by (simp_all add: sourceEnded_node)
next
  fix a assume "playingAudioBuffer (sourceEnded n v) = Some a"
  then have p: "playingAudioBuffer v = Some a" using sourceEnded_fields(3) [of n v] by auto
  from transportInv_buffer [OF assms p] obtain k where
    k: "sourceNodeRef v = Some k" "node_buffer (nodes v ! k) = a" by auto
  from transportInv_ref [OF assms k(1)] have "k < length (nodes v)" by simp
  with k show "\<exists>k. sourceNodeRef v = Some k \<and> node_buffer (nodes (sourceEnded n v) ! k) = a"
    by (simp add: sourceEnded_node)
qed

lemma navigation_inv:
  "transportInv v \<Longrightarrow> transportInv (handleNext ps v)"
  "transportInv v \<Longrightarrow> transportInv (handlePrev ps v)"
  "transportInv v \<Longrightarrow> transportInv (pageChangeEffect m i v)"
  by (simp_all add: handleNext_def handlePrev_def pageChangeEffect_def transportInv_context stopAudio_inv)

lemma viewerStep_inv: "transportInv v \<Longrightarrow> transportInv (viewerStep ps m ev v)"
  by (cases ev)
     (simp_all add: toggleAudio_inv resumed_inv sourceEnded_inv navigation_inv transportInv_context)

lemma initialViewer_inv: "transportInv initialViewer"
  by (simp add: transportInv_def initialViewer_def)

lemma reachable_inv: "reachable ps m v \<Longrightarrow> transportInv v"
  by (induction rule: reachable.induct) (simp_all add: initialViewer_inv viewerStep_inv)

lemma transportInv_one_active: "transportInv v \<Longrightarrow> length (activeNodes v) \<le> 1"
proof -
  assume inv: "transportInv v"
  have d: "distinct (activeNodes v)" by (simp add: activeNodes_def)
  show ?thesis
  proof (cases "sourceNodeRef v")
    case None
    with inv have "activeNodes v = []"
      by (auto simp add: activeNodes_def filter_empty_conv transportInv_def)
    then show ?thesis by simp
  next
    case (Some m)
    with inv have "set (activeNodes v) \<subseteq> {m}"
      by (auto simp add: activeNodes_def transportInv_def)
    then have "card (set (activeNodes v)) \<le> card {m}"
      by (intro card_mono) simp_all
    with d show ?thesis by (simp add: distinct_card)
  qed
qed

lemma toggle_then_resumed:
  assumes inv: "transportInv v"
    and h: "playingAudioBuffer v = Some a" "b \<noteq> a" "audioContextRef v = Some Suspended"
           "suspendedPlays v = []"
  shows "(\<exists>n. sourceNodeRef v = Some n \<and> node_buffer (nodes v ! n) = a \<and>
          \<not> playing (nodes (resumed (toggleAudio fresh (Some b) v)) ! n) \<and>
          \<not> connected (nodes (resumed (toggleAudio fresh (Some b) v)) ! n)) \<and>
       activeNodes (resumed (toggleAudio fresh (Some b) v)) = [length (nodes v)] \<and>
       node_buffer (nodes (resumed (toggleAudio fresh (Some b) v)) ! length (nodes v)) = b \<and>
       sourceNodeRef (resumed (toggleAudio fresh (Some b) v)) = Some (length (nodes v)) \<and>
       playingAudioBuffer (resumed (toggleAudio fresh (Some b) v)) = Some b"
proof -
  define w where "w = v\<lparr>suspendedPlays := [], audioContextRef := Some Running\<rparr>"
  from h have t: "resumed (toggleAudio fresh (Some b) v) = playAudio_rest b (Some a) w"
    by (simp add: toggleAudio_def playAudio_def resumed_def w_def)
  have w: "transportInv w" "nodes w = nodes v" "sourceNodeRef w = sourceNodeRef v"
    using inv by (simp_all add: w_def transportInv_context)
  from transportInv_buffer [OF inv h(1)] obtain n where
    n: "sourceNodeRef v = Some n" "node_buffer (nodes v ! n) = a" by auto
  then have nw: "sourceNodeRef w = Some n" by (simp add: w)
  show ?thesis
    using n playAudio_rest_old [OF w(1) nw] playAudio_rest_active [OF w(1)]
    by (simp add: t playAudio_rest_fields nth_append stopAudio_fields w)
qed

text \<open>
  C5. In every state that the viewer reaches, at most one source node is active.
  Toggling the buffer that is playing leads to idle: no playing buffer, no node in the
  ref, no active node. Toggling another buffer \<open>b\<close> while \<open>a\<close> is playing stops and
  disconnects the node of \<open>a\<close> and leaves exactly one active node, a new one that plays
  \<open>b\<close>: at once when the audio context runs, and once \<open>resume()\<close> has resolved when the
  context was suspended.
\<close>

theorem single_playback:
  assumes "reachable ps m v"
  shows "length (activeNodes v) \<le> 1 \<and>
    (\<forall>a. playingAudioBuffer v = Some a \<longrightarrow>
       playingAudioBuffer (toggleAudio fresh (Some a) v) = None \<and>
       sourceNodeRef (toggleAudio fresh (Some a) v) = None \<and>
       activeNodes (toggleAudio fresh (Some a) v) = []) \<and>
    (\<forall>a b. playingAudioBuffer v = Some a \<and> b \<noteq> a \<and> audioContextRef v = Some Running \<longrightarrow>
       (\<exists>n. sourceNodeRef v = Some n \<and> node_buffer (nodes v ! n) = a \<and>
          \<not> playing (nodes (toggleAudio fresh (Some b) v) ! n) \<and>
          \<not> connected (nodes (toggleAudio fresh (Some b) v) ! n)) \<and>
       activeNodes (toggleAudio fresh (Some b) v) = [length (nodes v)] \<and>
       node_buffer (nodes (toggleAudio fresh (Some b) v) ! length (nodes v)) = b \<and>
       sourceNodeRef (toggleAudio fresh (Some b) v) = Some (length (nodes v)) \<and>
       playingAudioBuffer (toggleAudio fresh (Some b) v) = Some b) \<and>
    (\<forall>a b. playingAudioBuffer v = Some a \<and> b \<noteq> a \<and> audioContextRef v = Some Suspended \<and>
          suspendedPlays v = [] \<longrightarrow>
       (\<exists>n. sourceNodeRef v = Some n \<and> node_buffer (nodes v ! n) = a \<and>
          \<not> playing (nodes (resumed (toggleAudio fresh (Some b) v)) ! n) \<and>
          \<not> connected (nodes (resumed (toggleAudio fresh (Some b) v)) ! n)) \<and>
       activeNodes (resumed (toggleAudio fresh (Some b) v)) = [length (nodes v)] \<and>
       node_buffer (nodes (resumed (toggleAudio fresh (Some b) v)) ! length (nodes v)) = b \<and>
       sourceNodeRef (resumed (toggleAudio fresh (Some b) v)) = Some (length (nodes v)) \<and>
       playingAudioBuffer (resumed (toggleAudio fresh (Some b) v)) = Some b)"
proof -
  from assms have inv: "transportInv v" by (rule reachable_inv)
  have one: "length (activeNodes v) \<le> 1" using inv by (rule transportInv_one_active)
  have same: "playingAudioBuffer (toggleAudio fresh (Some a) v) = None \<and>
       sourceNodeRef (toggleAudio fresh (Some a) v) = None \<and>
       activeNodes (toggleAudio fresh (Some a) v) = []" if "playingAudioBuffer v = Some a" for a
  proof -
    from that have t: "toggleAudio fresh (Some a) v = stopAudio v" by (simp add: toggleAudio_def)
    have "activeNodes (stopAudio v) = []"
      using stopAudio_silent [OF inv] by (rule activeNodes_silent)
    with t show ?thesis by (simp add: stopAudio_fields)
  qed
  have other: "(\<exists>n. sourceNodeRef v = Some n \<and> node_buffer (nodes v ! n) = a \<and>
          \<not> playing (nodes (toggleAudio fresh (Some b) v) ! n) \<and>
          \<not> connected (nodes (toggleAudio fresh (Some b) v) ! n)) \<and>
       activeNodes (toggleAudio fresh (Some b) v) = [length (nodes v)] \<and>
       node_buffer (nodes (toggleAudio fresh (Some b) v) ! length (nodes v)) = b \<and>
       sourceNodeRef (toggleAudio fresh (Some b) v) = Some (length (nodes v)) \<and>
       playingAudioBuffer (toggleAudio fresh (Some b) v) = Some b"
    if h: "playingAudioBuffer v = Some a" "b \<noteq> a" "audioContextRef v = Some Running" for a b
  proof -
    from h have t: "toggleAudio fresh (Some b) v = playAudio_rest b (Some a) v"
      by (simp add: toggleAudio_def playAudio_def)
    from transportInv_buffer [OF inv h(1)] obtain n where
      n: "sourceNodeRef v = Some n" "node_buffer (nodes v ! n) = a" by auto
    show ?thesis
      using n playAudio_rest_old [OF inv n(1)] playAudio_rest_active [OF inv]
      by (simp add: t playAudio_rest_fields nth_append stopAudio_fields)
  qed
  show ?thesis
  proof (intro conjI)
    show "length (activeNodes v) \<le> 1" by (rule one)
  next
    show "\<forall>a. playingAudioBuffer v = Some a \<longrightarrow>
       playingAudioBuffer (toggleAudio fresh (Some a) v) = None \<and>
       sourceNodeRef (toggleAudio fresh (Some a) v) = None \<and>
       activeNodes (toggleAudio fresh (Some a) v) = []"
    proof (intro allI impI)
      fix a assume "playingAudioBuffer v = Some a"
      then show "playingAudioBuffer (toggleAudio fresh (Some a) v) = None \<and>
       sourceNodeRef (toggleAudio fresh (Some a) v) = None \<and>
       activeNodes (toggleAudio fresh (Some a) v) = []" by (rule same)
    qed
  next
    show "\<forall>a b. playingAudioBuffer v = Some a \<and> b \<noteq> a \<and> audioContextRef v = Some Running \<longrightarrow>
       (\<exists>n. sourceNodeRef v = Some n \<and> node_buffer (nodes v ! n) = a \<and>
          \<not> playing (nodes (toggleAudio fresh (Some b) v) ! n) \<and>
          \<not> connected (nodes (toggleAudio fresh (Some b) v) ! n)) \<and>
       activeNodes (toggleAudio fresh (Some b) v) = [length (nodes v)] \<and>
       node_buffer (nodes (toggleAudio fresh (Some b) v) ! length (nodes v)) = b \<and>
       sourceNodeRef (toggleAudio fresh (Some b) v) = Some (length (nodes v)) \<and>
       playingAudioBuffer (toggleAudio fresh (Some b) v) = Some b"
    proof (intro allI impI)
      fix a b
      assume h: "playingAudioBuffer v = Some a \<and> b \<noteq> a \<and> audioContextRef v = Some Running"
      then have "playingAudioBuffer v = Some a" "b \<noteq> a" "audioContextRef v = Some Running"
        by simp_all
      then show "(\<exists>n. sourceNodeRef v = Some n \<and> node_buffer (nodes v ! n) = a \<and>
          \<not> playing (nodes (toggleAudio fresh (Some b) v) ! n) \<and>
          \<not> connected (nodes (toggleAudio fresh (Some b) v) ! n)) \<and>
       activeNodes (toggleAudio fresh (Some b) v) = [length (nodes v)] \<and>
       node_buffer (nodes (toggleAudio fresh (Some b) v) ! length (nodes v)) = b \<and>
       sourceNodeRef (toggleAudio fresh (Some b) v) = Some (length (nodes v)) \<and>
       playingAudioBuffer (toggleAudio fresh (Some b) v) = Some b" by (rule other)
    qed
  next
    show "\<forall>a b. playingAudioBuffer v = Some a \<and> b \<noteq> a \<and> audioContextRef v = Some Suspended \<and>
          suspendedPlays v = [] \<longrightarrow>
       (\<exists>n. sourceNodeRef v = Some n \<and> node_buffer (nodes v ! n) = a \<and>
          \<not> playing (nodes (resumed (toggleAudio fresh (Some b) v)) ! n) \<and>
          \<not> connected (nodes (resumed (toggleAudio fresh (Some b) v)) ! n)) \<and>
       activeNodes (resumed (toggleAudio fresh (Some b) v)) = [length (nodes v)] \<and>
       node_buffer (nodes (resumed (toggleAudio fresh (Some b) v)) ! length (nodes v)) = b \<and>
       sourceNodeRef (resumed (toggleAudio fresh (Some b) v)) = Some (length (nodes v)) \<and>
       playingAudioBuffer (resumed (toggleAudio fresh (Some b) v)) = Some b"
    proof (intro allI impI)
      fix a b
      assume h: "playingAudioBuffer v = Some a \<and> b \<noteq> a \<and> audioContextRef v = Some Suspended \<and>
          suspendedPlays v = []"
      then have "playingAudioBuffer v = Some a" "b \<noteq> a" "audioContextRef v = Some Suspended"
        "suspendedPlays v = []" by simp_all
      then show "(\<exists>n. sourceNodeRef v = Some n \<and> node_buffer (nodes v ! n) = a \<and>
          \<not> playing (nodes (resumed (toggleAudio fresh (Some b) v)) ! n) \<and>
          \<not> connected (nodes (resumed (toggleAudio fresh (Some b) v)) ! n)) \<and>
       activeNodes (resumed (toggleAudio fresh (Some b) v)) = [length (nodes v)] \<and>
       node_buffer (nodes (resumed (toggleAudio fresh (Some b) v)) ! length (nodes v)) = b \<and>
       sourceNodeRef (resumed (toggleAudio fresh (Some b) v)) = Some (length (nodes v)) \<and>
       playingAudioBuffer (resumed (toggleAudio fresh (Some b) v)) = Some b" by (rule toggle_then_resumed [OF inv])
    qed
  qed
qed

theorem single_playback_witness:
  "reachable [] Scroll (toggleAudio Running (Some (1::nat)) initialViewer) \<and>
   playingAudioBuffer (toggleAudio Running (Some (1::nat)) initialViewer) = Some 1 \<and>
   activeNodes (toggleAudio Running (Some (1::nat)) initialViewer) = [0] \<and>
   activeNodes (toggleAudio Running (Some 1) (toggleAudio Running (Some (1::nat)) initialViewer)) = [] \<and>
   activeNodes (toggleAudio Running (Some 2) (toggleAudio Running (Some (1::nat)) initialViewer)) = [1]"
proof -
  have r: "reachable [] Scroll (toggleAudio Running (Some (1::nat)) initialViewer)"
    using reachable.step [OF reachable.initial, of "[]" Scroll "Toggle (Some (1::nat)) Running"]
    by simp
  have p: "playingAudioBuffer (toggleAudio Running (Some (1::nat)) initialViewer) = Some 1"
    "audioContextRef (toggleAudio Running (Some (1::nat)) initialViewer) = Some Running"
    "length (nodes (toggleAudio Running (Some (1::nat)) initialViewer)) = 1"
    by (simp_all add: toggleAudio_def playAudio_def playAudio_rest_def stopAudio_def initialViewer_def)
  have a: "activeNodes (toggleAudio Running (Some (1::nat)) initialViewer) = [0]"
    by (simp add: activeNodes_def toggleAudio_def playAudio_def playAudio_rest_def stopAudio_def initialViewer_def)
  from single_playback [OF r, of Running] p a r show ?thesis by simp
qed

end
